theory Spec2Isabelle
  imports Main
begin

section \<open>The index-linked binomial heap of origin/heaps/binomial_heap.hpp\<close>

subsection \<open>Data model\<close>

text \<open>
  All links are values of \<^verbatim>\<open>size_t\<close>; the source writes the "none" link as
  \<^verbatim>\<open>-1\<close>, which is the largest value of a 64-bit \<^verbatim>\<open>size_t\<close>.
\<close>

definition npos :: nat where
  "npos = 18446744073709551615"

definition size_t_max :: nat where
  "size_t_max = 18446744073709551616"

record binomial_heap_node =
  item_index :: nat
  parent :: nat
  child :: nat
  right_sibling :: nat
  degree :: nat

text \<open>
  The default constructor of a node sets every link and the degree to \<^verbatim>\<open>-1\<close> and
  leaves \<^verbatim>\<open>item_index\<close> unset; the only node built this way is the list sentinel of
  \<^verbatim>\<open>merge\<close>, whose \<^verbatim>\<open>item_index\<close> is never read.
\<close>

definition default_node :: binomial_heap_node where
  "default_node =
     \<lparr>item_index = npos, parent = npos, child = npos, right_sibling = npos, degree = npos\<rparr>"

text \<open>
  The three vectors are indexed with \<^verbatim>\<open>operator[]\<close>, which has no bounds check: an index
  at or beyond the size is undefined behaviour. Each such access is an error value here,
  named after the vector.
\<close>

datatype error = ElementsOutOfRange | DataOutOfRange | IndexArrayOutOfRange

record 'a binomial_heap =
  elements :: "'a list"
  data :: "binomial_heap_node list"
  head :: nat
  topn :: nat
  index_array :: "nat list"

definition node_at :: "binomial_heap_node list \<Rightarrow> nat \<Rightarrow> error + binomial_heap_node" where
  "node_at d i = (if i < length d then Inr (d ! i) else Inl DataOutOfRange)"

definition node_upd ::
  "binomial_heap_node list \<Rightarrow> nat \<Rightarrow> (binomial_heap_node \<Rightarrow> binomial_heap_node)
    \<Rightarrow> error + binomial_heap_node list" where
  "node_upd d i f = (if i < length d then Inr (d[i := f (d ! i)]) else Inl DataOutOfRange)"

definition value_at :: "'a list \<Rightarrow> nat \<Rightarrow> error + 'a" where
  "value_at es i = (if i < length es then Inr (es ! i) else Inl ElementsOutOfRange)"

definition value_upd :: "'a list \<Rightarrow> nat \<Rightarrow> 'a \<Rightarrow> error + 'a list" where
  "value_upd es i v = (if i < length es then Inr (es[i := v]) else Inl ElementsOutOfRange)"

definition handle_at :: "nat list \<Rightarrow> nat \<Rightarrow> error + nat" where
  "handle_at ia h = (if h < length ia then Inr (ia ! h) else Inl IndexArrayOutOfRange)"

definition handle_upd :: "nat list \<Rightarrow> nat \<Rightarrow> nat \<Rightarrow> error + nat list" where
  "handle_upd ia h i = (if h < length ia then Inr (ia[h := i]) else Inl IndexArrayOutOfRange)"

text \<open>\<^verbatim>\<open>elements_[data_[i].item_index]\<close>\<close>

definition elem_at :: "'a list \<Rightarrow> binomial_heap_node list \<Rightarrow> nat \<Rightarrow> error + 'a" where
  "elem_at es d i =
     (case node_at d i of Inl e \<Rightarrow> Inl e | Inr n \<Rightarrow> value_at es (item_index n))"

text \<open>\<^verbatim>\<open>v.size() - 1\<close> in \<^verbatim>\<open>size_t\<close> arithmetic.\<close>

definition last_index :: "nat \<Rightarrow> nat" where
  "last_index n = (if n = 0 then npos else n - 1)"

subsection \<open>Constructors and the observers\<close>

definition binomial_heap :: "nat \<Rightarrow> 'a binomial_heap" where
  "binomial_heap n =
     \<lparr>elements = [], data = [], head = npos, topn = npos, index_array = replicate n 0\<rparr>"

text \<open>
  The default constructor initialises neither \<^verbatim>\<open>head_\<close> nor \<^verbatim>\<open>top_\<close>: they are
  parameters here. Its \<^verbatim>\<open>index_array\<close> is the empty vector.
\<close>

definition binomial_heap_default :: "nat \<Rightarrow> nat \<Rightarrow> 'a binomial_heap" where
  "binomial_heap_default h t =
     \<lparr>elements = [], data = [], head = h, topn = t, index_array = []\<rparr>"

definition heap_top :: "'a binomial_heap \<Rightarrow> error + 'a" where
  "heap_top s = elem_at (elements s) (data s) (topn s)"

definition heap_empty :: "'a binomial_heap \<Rightarrow> bool" where
  "heap_empty s = (length (elements s) = 0)"

definition heap_size :: "'a binomial_heap \<Rightarrow> nat" where
  "heap_size s = length (elements s)"

subsection \<open>get\_new\_top\<close>

partial_function (option) get_new_top_loop ::
  "('a \<Rightarrow> 'a \<Rightarrow> bool) \<Rightarrow> 'a list \<Rightarrow> binomial_heap_node list \<Rightarrow> nat \<Rightarrow> nat
    \<Rightarrow> (error + nat) option" where
  "get_new_top_loop cmp es d top_index tmp =
     (if tmp \<noteq> npos then
        (case elem_at es d tmp of Inl e \<Rightarrow> Some (Inl e) | Inr vt \<Rightarrow>
         case elem_at es d top_index of Inl e \<Rightarrow> Some (Inl e) | Inr vx \<Rightarrow>
         case node_at d tmp of Inl e \<Rightarrow> Some (Inl e) | Inr nt \<Rightarrow>
           get_new_top_loop cmp es d (if cmp vt vx then tmp else top_index) (right_sibling nt))
      else Some (Inr top_index))"

declare get_new_top_loop.simps [code]

definition get_new_top ::
  "('a \<Rightarrow> 'a \<Rightarrow> bool) \<Rightarrow> 'a list \<Rightarrow> binomial_heap_node list \<Rightarrow> nat \<Rightarrow> (error + nat) option" where
  "get_new_top cmp es d h =
     (if h = npos then Some (Inr npos)
      else case node_at d h of Inl e \<Rightarrow> Some (Inl e) | Inr nh \<Rightarrow>
        get_new_top_loop cmp es d h (right_sibling nh))"

subsection \<open>binomial\_link\<close>

definition binomial_link ::
  "binomial_heap_node list \<Rightarrow> nat \<Rightarrow> nat \<Rightarrow> error + binomial_heap_node list" where
  "binomial_link d y z =
     (case node_upd d y (\<lambda>n. n\<lparr>parent := z\<rparr>) of Inl e \<Rightarrow> Inl e | Inr d1 \<Rightarrow>
      case node_at d1 z of Inl e \<Rightarrow> Inl e | Inr nz \<Rightarrow>
      case node_upd d1 y (\<lambda>n. n\<lparr>right_sibling := child nz\<rparr>) of Inl e \<Rightarrow> Inl e | Inr d2 \<Rightarrow>
      case node_upd d2 z (\<lambda>n. n\<lparr>child := y\<rparr>) of Inl e \<Rightarrow> Inl e | Inr d3 \<Rightarrow>
        node_upd d3 z (\<lambda>n. n\<lparr>degree := (degree n + 1) mod size_t_max\<rparr>))"

subsection \<open>merge\<close>

text \<open>One pass of the loop body: the node appended after \<open>current\<close> is taken from the
  list at \<open>p\<close> or from the list at \<open>q\<close>.\<close>

definition merge_take_p :: "binomial_heap_node list \<Rightarrow> nat \<Rightarrow> nat \<Rightarrow> error + bool" where
  "merge_take_p d p q =
     (if q = npos then Inr True
      else if p = npos then Inr False
      else case node_at d p of Inl e \<Rightarrow> Inl e | Inr np \<Rightarrow>
           case node_at d q of Inl e \<Rightarrow> Inl e | Inr nq \<Rightarrow> Inr (degree np < degree nq))"

partial_function (option) merge_loop ::
  "binomial_heap_node list \<Rightarrow> nat \<Rightarrow> nat \<Rightarrow> nat \<Rightarrow> (error + binomial_heap_node list) option" where
  "merge_loop d p q current =
     (if p \<noteq> npos \<or> q \<noteq> npos then
        (case merge_take_p d p q of Inl e \<Rightarrow> Some (Inl e)
         | Inr take_p \<Rightarrow>
            if take_p then
              (case node_upd d current (\<lambda>n. n\<lparr>right_sibling := p\<rparr>) of Inl e \<Rightarrow> Some (Inl e)
               | Inr d1 \<Rightarrow>
              (case node_at d1 p of Inl e \<Rightarrow> Some (Inl e)
               | Inr np \<Rightarrow> merge_loop d1 (right_sibling np) q p))
            else
              (case node_upd d current (\<lambda>n. n\<lparr>right_sibling := q\<rparr>) of Inl e \<Rightarrow> Some (Inl e)
               | Inr d1 \<Rightarrow>
              (case node_at d1 q of Inl e \<Rightarrow> Some (Inl e)
               | Inr nq \<Rightarrow> merge_loop d1 p (right_sibling nq) q)))
      else Some (Inr d))"

declare merge_loop.simps [code]

text \<open>\<^verbatim>\<open>merge\<close> returns the node vector and the new \<^verbatim>\<open>head_\<close>. Its first statement reads
  the degrees of \<^verbatim>\<open>data_[head_]\<close> and \<^verbatim>\<open>data_[index]\<close> for a local that is never used.\<close>

definition merge ::
  "binomial_heap_node list \<Rightarrow> nat \<Rightarrow> nat \<Rightarrow> (error + binomial_heap_node list \<times> nat) option" where
  "merge d h index =
     (case node_at d h of Inl e \<Rightarrow> Some (Inl e) | Inr np \<Rightarrow>
      case node_at d index of Inl e \<Rightarrow> Some (Inl e) | Inr nq \<Rightarrow>
      case merge_loop (d @ [default_node]) h index (length d) of
        None \<Rightarrow> None
      | Some (Inl e) \<Rightarrow> Some (Inl e)
      | Some (Inr d1) \<Rightarrow>
          if d1 = [] then Some (Inl DataOutOfRange)
          else Some (Inr (butlast d1, right_sibling (last d1))))"

subsection \<open>binomial\_heap\_union\<close>

text \<open>The test of the consolidation loop that moves on without linking.\<close>

definition union_skip :: "binomial_heap_node list \<Rightarrow> nat \<Rightarrow> nat \<Rightarrow> error + bool" where
  "union_skip d x next_x =
     (case node_at d x of Inl e \<Rightarrow> Inl e | Inr nx \<Rightarrow>
      case node_at d next_x of Inl e \<Rightarrow> Inl e | Inr nn \<Rightarrow>
        if degree nx \<noteq> degree nn then Inr True
        else if right_sibling nn = npos then Inr False
        else case node_at d (right_sibling nn) of Inl e \<Rightarrow> Inl e
             | Inr nr \<Rightarrow> Inr (degree nr = degree nx))"

text \<open>The linking branch: the state is the node vector, \<^verbatim>\<open>head_\<close>, \<^verbatim>\<open>prev_x\<close> and \<^verbatim>\<open>x\<close>.
  In the loop below the local \<^verbatim>\<open>x\<close> is written \<open>cur_x\<close>.\<close>

definition union_link ::
  "('a \<Rightarrow> 'a \<Rightarrow> bool) \<Rightarrow> 'a list \<Rightarrow> binomial_heap_node list \<Rightarrow> nat \<Rightarrow> nat \<Rightarrow> nat \<Rightarrow> nat
    \<Rightarrow> error + binomial_heap_node list \<times> nat \<times> nat \<times> nat" where
  "union_link cmp es d h prev_x x next_x =
     (case elem_at es d x of Inl e \<Rightarrow> Inl e | Inr vx \<Rightarrow>
      case elem_at es d next_x of Inl e \<Rightarrow> Inl e | Inr vn \<Rightarrow>
        if cmp vx vn then
          (case node_at d next_x of Inl e \<Rightarrow> Inl e | Inr nn \<Rightarrow>
           case node_upd d x (\<lambda>n. n\<lparr>right_sibling := right_sibling nn\<rparr>) of Inl e \<Rightarrow> Inl e
           | Inr d1 \<Rightarrow>
           case binomial_link d1 next_x x of Inl e \<Rightarrow> Inl e
           | Inr d2 \<Rightarrow> Inr (d2, h, prev_x, x))
        else if prev_x = npos then
          (case binomial_link d x next_x of Inl e \<Rightarrow> Inl e
           | Inr d2 \<Rightarrow> Inr (d2, next_x, prev_x, next_x))
        else
          (case node_upd d prev_x (\<lambda>n. n\<lparr>right_sibling := next_x\<rparr>) of Inl e \<Rightarrow> Inl e
           | Inr d1 \<Rightarrow>
           case binomial_link d1 x next_x of Inl e \<Rightarrow> Inl e
           | Inr d2 \<Rightarrow> Inr (d2, h, prev_x, next_x)))"

partial_function (option) union_loop ::
  "('a \<Rightarrow> 'a \<Rightarrow> bool) \<Rightarrow> 'a list \<Rightarrow> binomial_heap_node list \<Rightarrow> nat \<Rightarrow> nat \<Rightarrow> nat \<Rightarrow> nat
    \<Rightarrow> (error + binomial_heap_node list \<times> nat) option" where
  "union_loop cmp es d h prev_x cur_x next_x =
     (if next_x \<noteq> npos then
        (case union_skip d cur_x next_x of Inl e \<Rightarrow> Some (Inl e)
         | Inr skip \<Rightarrow>
            if skip then
              (case node_at d next_x of Inl e \<Rightarrow> Some (Inl e)
               | Inr nn \<Rightarrow> union_loop cmp es d h cur_x next_x (right_sibling nn))
            else
              (case union_link cmp es d h prev_x cur_x next_x of Inl e \<Rightarrow> Some (Inl e)
               | Inr (d1, h1, prev1, x1) \<Rightarrow>
              (case node_at d1 x1 of Inl e \<Rightarrow> Some (Inl e)
               | Inr nx \<Rightarrow> union_loop cmp es d1 h1 prev1 x1 (right_sibling nx))))
      else Some (Inr (d, h)))"

declare union_loop.simps [code]

definition binomial_heap_union ::
  "('a \<Rightarrow> 'a \<Rightarrow> bool) \<Rightarrow> 'a list \<Rightarrow> binomial_heap_node list \<Rightarrow> nat \<Rightarrow> nat
    \<Rightarrow> (error + binomial_heap_node list \<times> nat) option" where
  "binomial_heap_union cmp es d h index =
     (case merge d h index of
        None \<Rightarrow> None
      | Some (Inl e) \<Rightarrow> Some (Inl e)
      | Some (Inr (d1, h1)) \<Rightarrow>
         (case node_at d1 h1 of Inl e \<Rightarrow> Some (Inl e)
          | Inr nh \<Rightarrow>
              if right_sibling nh = npos then Some (Inr (d1, h1))
              else union_loop cmp es d1 h1 npos h1 (right_sibling nh)))"

subsection \<open>push\<close>

definition push ::
  "('a \<Rightarrow> 'a \<Rightarrow> bool) \<Rightarrow> ('a \<Rightarrow> nat) \<Rightarrow> 'a binomial_heap \<Rightarrow> 'a
    \<Rightarrow> (error + 'a binomial_heap) option" where
  "push cmp ident s dv =
     (let es = elements s @ [dv];
          obj = \<lparr>item_index = last_index (length es), parent = npos, child = npos,
                  right_sibling = npos, degree = 0\<rparr>;
          d = data s @ [obj];
          index = last_index (length d)
      in case handle_upd (index_array s) (ident dv) index of Inl e \<Rightarrow> Some (Inl e)
         | Inr ia \<Rightarrow>
             if head s = npos then
               Some (Inr \<lparr>elements = es, data = d, head = index, topn = index,
                          index_array = ia\<rparr>)
             else
               (case binomial_heap_union cmp es d (head s) index of
                  None \<Rightarrow> None
                | Some (Inl e) \<Rightarrow> Some (Inl e)
                | Some (Inr (d1, h1)) \<Rightarrow>
                   (case elem_at es d1 index of Inl e \<Rightarrow> Some (Inl e)
                    | Inr vi \<Rightarrow>
                   (case elem_at es d1 (topn s) of Inl e \<Rightarrow> Some (Inl e)
                    | Inr vt \<Rightarrow>
                       Some (Inr \<lparr>elements = es, data = d1, head = h1,
                                  topn = (if cmp vi vt then index else topn s),
                                  index_array = ia\<rparr>)))))"

subsection \<open>update\<close>

text \<open>The first statements of the loop body: the two writes that exchange the value of
  \<^verbatim>\<open>index\<close> with the value of its parent, and the write of the handle index for the value
  that moved down. The result is the value vector and the handle index.\<close>

definition update_swap ::
  "('a \<Rightarrow> nat) \<Rightarrow> 'a \<Rightarrow> 'a list \<Rightarrow> binomial_heap_node list \<Rightarrow> nat list \<Rightarrow> nat \<Rightarrow> nat
    \<Rightarrow> error + 'a list \<times> nat list" where
  "update_swap ident dv es d ia index par =
     (case elem_at es d par of Inl e \<Rightarrow> Inl e | Inr vp \<Rightarrow>
      case node_at d index of Inl e \<Rightarrow> Inl e | Inr ni \<Rightarrow>
      case value_upd es (item_index ni) vp of Inl e \<Rightarrow> Inl e | Inr es1 \<Rightarrow>
      case node_at d par of Inl e \<Rightarrow> Inl e | Inr np \<Rightarrow>
      case value_upd es1 (item_index np) dv of Inl e \<Rightarrow> Inl e | Inr es2 \<Rightarrow>
      case elem_at es2 d index of Inl e \<Rightarrow> Inl e | Inr vi \<Rightarrow>
      case handle_upd ia (ident vi) index of Inl e \<Rightarrow> Inl e | Inr ia1 \<Rightarrow>
        Inr (es2, ia1))"

text \<open>The loop state is the value vector, the handle index and \<^verbatim>\<open>index\<close>; the argument
  \<open>par\<close> is the local \<^verbatim>\<open>parent\<close>.\<close>

partial_function (option) update_loop ::
  "('a \<Rightarrow> 'a \<Rightarrow> bool) \<Rightarrow> ('a \<Rightarrow> nat) \<Rightarrow> 'a \<Rightarrow> 'a list \<Rightarrow> binomial_heap_node list \<Rightarrow> nat list
    \<Rightarrow> nat \<Rightarrow> nat \<Rightarrow> (error + 'a list \<times> nat list \<times> nat) option" where
  "update_loop cmp ident dv es d ia index par =
     (if par \<noteq> npos then
        (case elem_at es d par of Inl e \<Rightarrow> Some (Inl e)
         | Inr vp \<Rightarrow>
            if cmp dv vp then
              (case update_swap ident dv es d ia index par of Inl e \<Rightarrow> Some (Inl e)
               | Inr swapped \<Rightarrow>
              (case node_at d par of Inl e \<Rightarrow> Some (Inl e)
               | Inr np \<Rightarrow>
                  update_loop cmp ident dv (fst swapped) d (snd swapped) par (parent np)))
            else Some (Inr (es, ia, index)))
      else Some (Inr (es, ia, index)))"

declare update_loop.simps [code]

definition update ::
  "('a \<Rightarrow> 'a \<Rightarrow> bool) \<Rightarrow> ('a \<Rightarrow> nat) \<Rightarrow> 'a binomial_heap \<Rightarrow> 'a
    \<Rightarrow> (error + 'a binomial_heap) option" where
  "update cmp ident s dv =
     (case handle_at (index_array s) (ident dv) of Inl e \<Rightarrow> Some (Inl e)
      | Inr index \<Rightarrow>
     (case node_at (data s) index of Inl e \<Rightarrow> Some (Inl e)
      | Inr ni \<Rightarrow>
     (case value_upd (elements s) (item_index ni) dv of Inl e \<Rightarrow> Some (Inl e)
      | Inr es1 \<Rightarrow>
     (case update_loop cmp ident dv es1 (data s) (index_array s) index (parent ni) of
        None \<Rightarrow> None
      | Some (Inl e) \<Rightarrow> Some (Inl e)
      | Some (Inr (es2, ia2, index2)) \<Rightarrow>
         (case handle_upd ia2 (ident dv) index2 of Inl e \<Rightarrow> Some (Inl e)
          | Inr ia3 \<Rightarrow>
         (case elem_at es2 (data s) (topn s) of Inl e \<Rightarrow> Some (Inl e)
          | Inr vt \<Rightarrow>
             Some (Inr (s\<lparr>elements := es2, index_array := ia3,
                           topn := (if cmp dv vt then index2 else topn s)\<rparr>))))))))"

subsection \<open>pop\<close>

text \<open>The loop that turns the child list of the old top into a root list, reversed.\<close>

partial_function (option) pop_reverse_loop ::
  "binomial_heap_node list \<Rightarrow> nat \<Rightarrow> nat \<Rightarrow> (error + binomial_heap_node list \<times> nat) option" where
  "pop_reverse_loop d new_head tmp_head =
     (if tmp_head \<noteq> npos then
        (case node_at d tmp_head of Inl e \<Rightarrow> Some (Inl e)
         | Inr nt \<Rightarrow>
        (case node_upd d tmp_head (\<lambda>n. n\<lparr>parent := npos, right_sibling := new_head\<rparr>) of
           Inl e \<Rightarrow> Some (Inl e)
         | Inr d1 \<Rightarrow> pop_reverse_loop d1 tmp_head (right_sibling nt)))
      else Some (Inr (d, new_head)))"

declare pop_reverse_loop.simps [code]

text \<open>The loop that looks for the root whose right sibling is the old top.\<close>

partial_function (option) pop_find_loop ::
  "binomial_heap_node list \<Rightarrow> nat \<Rightarrow> nat \<Rightarrow> (error + nat) option" where
  "pop_find_loop d t tmp =
     (case node_at d tmp of Inl e \<Rightarrow> Some (Inl e)
      | Inr n \<Rightarrow>
          if right_sibling n \<noteq> t then pop_find_loop d t (right_sibling n)
          else Some (Inr tmp))"

declare pop_find_loop.simps [code]

text \<open>Taking the old top out of the root list and uniting the list of its children
  with the rest.\<close>

definition pop_detach ::
  "('a \<Rightarrow> 'a \<Rightarrow> bool) \<Rightarrow> 'a list \<Rightarrow> binomial_heap_node list \<Rightarrow> nat \<Rightarrow> nat \<Rightarrow> nat
    \<Rightarrow> (error + binomial_heap_node list \<times> nat) option" where
  "pop_detach cmp es d h t new_head =
     (case node_at d h of Inl e \<Rightarrow> Some (Inl e)
      | Inr nh \<Rightarrow>
          if right_sibling nh = npos then Some (Inr (d, new_head))
          else if h = t then binomial_heap_union cmp es d (right_sibling nh) new_head
          else
            (case pop_find_loop d t h of
               None \<Rightarrow> None
             | Some (Inl e) \<Rightarrow> Some (Inl e)
             | Some (Inr tmp) \<Rightarrow>
                (case node_at d t of Inl e \<Rightarrow> Some (Inl e)
                 | Inr nt \<Rightarrow>
                (case node_upd d tmp (\<lambda>n. n\<lparr>right_sibling := right_sibling nt\<rparr>) of
                   Inl e \<Rightarrow> Some (Inl e)
                 | Inr d1 \<Rightarrow> binomial_heap_union cmp es d1 h new_head))))"

text \<open>The last statements of \<^verbatim>\<open>pop\<close>, from the read of \<^verbatim>\<open>index_array\<close> to
  \<^verbatim>\<open>elements_.pop_back()\<close>; \<open>temp\<close> is the old \<^verbatim>\<open>top_\<close>.\<close>

definition pop_compact ::
  "('a \<Rightarrow> nat) \<Rightarrow> 'a list \<Rightarrow> binomial_heap_node list \<Rightarrow> nat list \<Rightarrow> nat
    \<Rightarrow> error + 'a list \<times> binomial_heap_node list" where
  "pop_compact ident es d ia temp =
     (case value_at es (last_index (length es)) of Inl e \<Rightarrow> Inl e
      | Inr vl \<Rightarrow>
     (case handle_at ia (ident vl) of Inl e \<Rightarrow> Inl e
      | Inr index \<Rightarrow>
     (case value_upd es temp vl of Inl e \<Rightarrow> Inl e
      | Inr es1 \<Rightarrow>
     (case node_upd d index (\<lambda>n. n\<lparr>item_index := temp\<rparr>) of Inl e \<Rightarrow> Inl e
      | Inr d1 \<Rightarrow>
     (case node_upd d1 temp
             (\<lambda>n. n\<lparr>parent := npos, child := npos, right_sibling := npos, degree := 0\<rparr>) of
        Inl e \<Rightarrow> Inl e
      | Inr d2 \<Rightarrow> Inr (butlast es1, d2))))))"

definition pop ::
  "('a \<Rightarrow> 'a \<Rightarrow> bool) \<Rightarrow> ('a \<Rightarrow> nat) \<Rightarrow> 'a binomial_heap \<Rightarrow> (error + 'a binomial_heap) option" where
  "pop cmp ident s =
     (if head s = npos then Some (Inr s)
      else
        (case node_at (data s) (topn s) of Inl e \<Rightarrow> Some (Inl e)
         | Inr ntop \<Rightarrow>
        (case (if child ntop \<noteq> npos then pop_reverse_loop (data s) npos (child ntop)
               else Some (Inr (data s, npos))) of
           None \<Rightarrow> None
         | Some (Inl e) \<Rightarrow> Some (Inl e)
         | Some (Inr (d1, new_head)) \<Rightarrow>
        (case pop_detach cmp (elements s) d1 (head s) (topn s) new_head of
           None \<Rightarrow> None
         | Some (Inl e) \<Rightarrow> Some (Inl e)
         | Some (Inr (d2, h2)) \<Rightarrow>
        (case get_new_top cmp (elements s) d2 h2 of
           None \<Rightarrow> None
         | Some (Inl e) \<Rightarrow> Some (Inl e)
         | Some (Inr t2) \<Rightarrow>
        (case pop_compact ident (elements s) d2 (index_array s) (topn s) of
           Inl e \<Rightarrow> Some (Inl e)
         | Inr (es3, d3) \<Rightarrow>
             Some (Inr \<lparr>elements = es3, data = d3, head = h2, topn = t2,
                        index_array = index_array s\<rparr>)))))))"

subsection \<open>Sequences of operations\<close>

datatype 'a op = Push 'a | Pop | Update 'a

definition apply_op ::
  "('a \<Rightarrow> 'a \<Rightarrow> bool) \<Rightarrow> ('a \<Rightarrow> nat) \<Rightarrow> 'a binomial_heap \<Rightarrow> 'a op
    \<Rightarrow> (error + 'a binomial_heap) option" where
  "apply_op cmp ident s o1 =
     (case o1 of Push v \<Rightarrow> push cmp ident s v | Pop \<Rightarrow> pop cmp ident s
      | Update v \<Rightarrow> update cmp ident s v)"

fun run ::
  "('a \<Rightarrow> 'a \<Rightarrow> bool) \<Rightarrow> ('a \<Rightarrow> nat) \<Rightarrow> 'a binomial_heap \<Rightarrow> 'a op list
    \<Rightarrow> (error + 'a binomial_heap) option" where
  "run cmp ident s [] = Some (Inr s)"
| "run cmp ident s (o1 # os) =
     (case apply_op cmp ident s o1 of
        None \<Rightarrow> None
      | Some (Inl e) \<Rightarrow> Some (Inl e)
      | Some (Inr s1) \<Rightarrow> run cmp ident s1 os)"

subsection \<open>A min-oriented instance\<close>

text \<open>
  The instance used in the concrete scenarios: a value is a key with its handle, the
  comparator orders by key (smallest first) and the handle function returns the handle.
\<close>

definition key_less :: "int \<times> nat \<Rightarrow> int \<times> nat \<Rightarrow> bool" where
  "key_less a b = (fst a < fst b)"

definition leaf :: "nat \<Rightarrow> binomial_heap_node" where
  "leaf i = \<lparr>item_index = i, parent = npos, child = npos, right_sibling = npos, degree = 0\<rparr>"

subsection \<open>Handles within the capacity\<close>

text \<open>Every value in the value vector has a handle below the size of the handle index.\<close>

definition handles_ok :: "('a \<Rightarrow> nat) \<Rightarrow> 'a binomial_heap \<Rightarrow> bool" where
  "handles_ok ident s = (\<forall>v \<in> set (elements s). ident v < length (index_array s))"

subsection \<open>Update as the specification words it\<close>

text \<open>
  The ancestors of a node: the list of the nodes met along the \<^verbatim>\<open>parent\<close> links, up to
  the root.
\<close>

fun parent_chain :: "binomial_heap_node list \<Rightarrow> nat \<Rightarrow> nat list \<Rightarrow> bool" where
  "parent_chain d i [] \<longleftrightarrow> parent (d ! i) = npos"
| "parent_chain d i (a # as) \<longleftrightarrow>
     parent (d ! i) = a \<and> a \<noteq> npos \<and> a < length d \<and> parent_chain d a as"

text \<open>
  Section 4.5 of the specification: write the new value into the node's slot, then walk
  upward, swapping the value between the current node and its parent whenever the
  child's key compares more favourably than the parent's, updating the handle index for
  both swapped values at each step, stopping at the root or at the first ancestor that
  does not violate heap order; then reassign the top if the new value compares more
  favourably than the current top. These definitions follow those words, not the code.
\<close>

definition swap_values :: "'a list \<Rightarrow> nat \<Rightarrow> nat \<Rightarrow> 'a list" where
  "swap_values es i j = es[i := es ! j, j := es ! i]"

fun sift_up_spec ::
  "('a \<Rightarrow> 'a \<Rightarrow> bool) \<Rightarrow> ('a \<Rightarrow> nat) \<Rightarrow> binomial_heap_node list \<Rightarrow> 'a list \<Rightarrow> nat list \<Rightarrow> nat
    \<Rightarrow> nat list \<Rightarrow> 'a list \<times> nat list \<times> nat" where
  "sift_up_spec cmp ident d es ia index [] = (es, ia, index)"
| "sift_up_spec cmp ident d es ia index (a # as) =
     (let vc = es ! item_index (d ! index); vp = es ! item_index (d ! a)
      in if cmp vc vp then
           sift_up_spec cmp ident d
             (swap_values es (item_index (d ! index)) (item_index (d ! a)))
             (ia[ident vp := index, ident vc := a]) a as
         else (es, ia, index))"

definition update_spec ::
  "('a \<Rightarrow> 'a \<Rightarrow> bool) \<Rightarrow> ('a \<Rightarrow> nat) \<Rightarrow> 'a binomial_heap \<Rightarrow> 'a \<Rightarrow> nat list \<Rightarrow> 'a binomial_heap" where
  "update_spec cmp ident s dv as =
     (let index = index_array s ! ident dv;
          es1 = (elements s)[item_index (data s ! index) := dv];
          (es2, ia2, index2) = sift_up_spec cmp ident (data s) es1 (index_array s) index as
      in s\<lparr>elements := es2, index_array := ia2,
            topn := (if cmp dv (es2 ! item_index (data s ! topn s)) then index2 else topn s)\<rparr>)"

text \<open>
  The heaps on which the two are compared: the handle of the value is inside the
  capacity, the ancestors of its node are \<open>as\<close>, the nodes involved and their value slots
  are in range, the nodes on the path have different value slots, and the values of the
  ancestors have handles inside the capacity that differ from the handle of the value.
\<close>

definition update_pre :: "('a \<Rightarrow> nat) \<Rightarrow> 'a binomial_heap \<Rightarrow> 'a \<Rightarrow> nat list \<Rightarrow> bool" where
  "update_pre ident s dv as \<longleftrightarrow>
     ident dv < length (index_array s)
     \<and> parent_chain (data s) (index_array s ! ident dv) as
     \<and> (\<forall>i \<in> set (topn s # index_array s ! ident dv # as).
           i < length (data s) \<and> item_index (data s ! i) < length (elements s))
     \<and> distinct (map (\<lambda>i. item_index (data s ! i)) (index_array s ! ident dv # as))
     \<and> (\<forall>a \<in> set as. ident (elements s ! item_index (data s ! a)) < length (index_array s)
           \<and> ident (elements s ! item_index (data s ! a)) \<noteq> ident dv)"

text \<open>Two handle indexes that agree everywhere but at one handle.\<close>

definition eq_except :: "nat \<Rightarrow> nat list \<Rightarrow> nat list \<Rightarrow> bool" where
  "eq_except h xs ys \<longleftrightarrow> length xs = length ys \<and> (\<forall>k. k \<noteq> h \<longrightarrow> xs ! k = ys ! k)"

text \<open>
  The invariant of the loop of \<^verbatim>\<open>update\<close>, relative to the value vector \<open>es0\<close> at the call:
  the slot of \<open>index\<close> holds the new value, and every slot holds its old value, the new
  value, or a value the new value compares more favourably than.
\<close>

definition sift_inv :: "('a \<Rightarrow> 'a \<Rightarrow> bool) \<Rightarrow> 'a \<Rightarrow> 'a list \<Rightarrow> binomial_heap_node list \<Rightarrow> 'a list \<Rightarrow> nat \<Rightarrow> bool" where
  "sift_inv cmp dv es0 d es index \<longleftrightarrow>
     length es = length es0 \<and> elem_at es d index = Inr dv
     \<and> (\<forall>k < length es. es ! k = es0 ! k \<or> es ! k = dv \<or> cmp dv (es ! k))"

subsection \<open>Root lists\<close>

text \<open>
  A list of nodes linked by \<^verbatim>\<open>right_sibling\<close>: \<open>seg d h xs t\<close> says that following the links
  from \<open>h\<close> meets exactly the nodes \<open>xs\<close>, all inside the node vector, and then arrives at
  \<open>t\<close>. A list that ends at the "none" link is a \<open>sibling_chain\<close>.
\<close>

fun seg :: "binomial_heap_node list \<Rightarrow> nat \<Rightarrow> nat list \<Rightarrow> nat \<Rightarrow> bool" where
  "seg d h [] t \<longleftrightarrow> h = t"
| "seg d h (r # rs) t \<longleftrightarrow>
     h = r \<and> r \<noteq> npos \<and> r < length d \<and> seg d (right_sibling (d ! r)) rs t"

definition sibling_chain :: "binomial_heap_node list \<Rightarrow> nat \<Rightarrow> nat list \<Rightarrow> bool" where
  "sibling_chain d h rs = seg d h rs npos"

text \<open>The order in which the loop of \<^verbatim>\<open>merge\<close> takes the nodes of its two lists.\<close>

fun merge_lists :: "binomial_heap_node list \<Rightarrow> nat list \<Rightarrow> nat list \<Rightarrow> nat list" where
  "merge_lists d ps [] = ps"
| "merge_lists d [] (q # qs) = q # qs"
| "merge_lists d (p # ps) (q # qs) =
     (if degree (d ! p) < degree (d ! q) then p # merge_lists d ps (q # qs)
      else q # merge_lists d (p # ps) qs)"

text \<open>Two node vectors that differ in \<^verbatim>\<open>right_sibling\<close> fields only.\<close>

definition same_but_siblings :: "binomial_heap_node list \<Rightarrow> binomial_heap_node list \<Rightarrow> bool" where
  "same_but_siblings d d' \<longleftrightarrow>
     length d' = length d
     \<and> (\<forall>i < length d. item_index (d' ! i) = item_index (d ! i)
          \<and> parent (d' ! i) = parent (d ! i) \<and> child (d' ! i) = child (d ! i)
          \<and> degree (d' ! i) = degree (d ! i))"

text \<open>The node vector after \<^verbatim>\<open>binomial_link\<close>, when both nodes are in range, and the outcome of
  the linking branch of the consolidation loop, when all its accesses are in range.\<close>

definition linked :: "binomial_heap_node list \<Rightarrow> nat \<Rightarrow> nat \<Rightarrow> binomial_heap_node list" where
  "linked d y z =
     d[y := (d ! y)\<lparr>parent := z, right_sibling := child (d ! z)\<rparr>,
       z := (d ! z)\<lparr>child := y, degree := (degree (d ! z) + 1) mod size_t_max\<rparr>]"

definition link_result ::
  "('a \<Rightarrow> 'a \<Rightarrow> bool) \<Rightarrow> 'a list \<Rightarrow> binomial_heap_node list \<Rightarrow> nat \<Rightarrow> nat \<Rightarrow> nat \<Rightarrow> nat
    \<Rightarrow> binomial_heap_node list \<times> nat \<times> nat \<times> nat" where
  "link_result cmp es d h prev_x x n =
     (if cmp (es ! item_index (d ! x)) (es ! item_index (d ! n)) then
        (linked (d[x := (d ! x)\<lparr>right_sibling := right_sibling (d ! n)\<rparr>]) n x, h, prev_x, x)
      else if prev_x = npos then (linked d x n, n, prev_x, n)
      else (linked (d[prev_x := (d ! prev_x)\<lparr>right_sibling := n\<rparr>]) x n, h, prev_x, n))"

text \<open>
  What a union returns on lists of nodes \<open>xs\<close>: a node vector of the same size with the
  same value slots, and a head from which a non-empty list of different nodes of \<open>xs\<close>
  leads to the "none" link.
\<close>

definition union_post ::
  "binomial_heap_node list \<Rightarrow> nat list \<Rightarrow> (error + binomial_heap_node list \<times> nat) option \<Rightarrow> bool" where
  "union_post d xs r \<longleftrightarrow>
     (\<exists>d' h' rs. r = Some (Inr (d', h')) \<and> sibling_chain d' h' rs \<and> distinct rs \<and> rs \<noteq> []
        \<and> set rs \<subseteq> set xs \<and> length d' = length d
        \<and> (\<forall>i<length d. item_index (d' ! i) = item_index (d ! i)))"

subsection \<open>Heaps built by insertions only\<close>

text \<open>
  The heap after the insertions of the values \<open>vs\<close>, in this order: the value vector is
  \<open>vs\<close>, node \<open>i\<close> owns slot \<open>i\<close>, the root list is a list of different nodes that ends at
  the "none" link, and no value of \<open>vs\<close> compares more favourably than the value of the top.
\<close>

definition insert_inv :: "('a \<Rightarrow> 'a \<Rightarrow> bool) \<Rightarrow> 'a list \<Rightarrow> 'a binomial_heap \<Rightarrow> bool" where
  "insert_inv cmp vs s \<longleftrightarrow>
     elements s = vs \<and> length (data s) = length vs
     \<and> (\<forall>i<length vs. item_index (data s ! i) = i)
     \<and> (\<exists>rs. sibling_chain (data s) (head s) rs \<and> distinct rs \<and> (rs = [] \<longleftrightarrow> vs = []))
     \<and> (vs \<noteq> [] \<longrightarrow> topn s < length vs \<and> (\<forall>v\<in>set vs. \<not> cmp v (vs ! topn s)))"

section \<open>Evaluation of concrete runs\<close>

lemma replicate_numeral_unfold:
  "replicate (numeral k) x = x # replicate (pred_numeral k) x"
  by (simp add: numeral_eq_Suc)

lemmas heap_eval =
  apply_op_def push_def pop_def update_def update_swap_def pop_detach_def pop_compact_def
  binomial_heap_union_def merge_def merge_take_p_def union_skip_def union_link_def
  binomial_link_def get_new_top_def heap_top_def heap_empty_def heap_size_def
  node_at_def node_upd_def value_at_def value_upd_def handle_at_def handle_upd_def elem_at_def
  last_index_def binomial_heap_def default_node_def npos_def size_t_max_def key_less_def
  leaf_def merge_loop.simps union_loop.simps get_new_top_loop.simps update_loop.simps
  pop_reverse_loop.simps pop_find_loop.simps Let_def replicate_numeral_unfold

lemma run_append:
  "run cmp ident s (xs @ ys) =
     (case run cmp ident s xs of None \<Rightarrow> None | Some (Inl e) \<Rightarrow> Some (Inl e)
      | Some (Inr s1) \<Rightarrow> run cmp ident s1 ys)"
  by (induction xs arbitrary: s) (auto split: option.splits sum.splits)

section \<open>Extraction: the compaction of the value store\<close>

lemma run_push_pop_push3:
  "run key_less snd (binomial_heap 4) [Push (0, 0), Pop, Push (1, 1), Push (2, 2), Push (3, 3)] =
     Some (Inr \<lparr>elements = [(1, 1), (2, 2), (3, 3)],
                data = [leaf 0,
                        \<lparr>item_index = 0, parent = npos, child = 2, right_sibling = npos,
                           degree = 1\<rparr>,
                        \<lparr>item_index = 1, parent = 1, child = npos, right_sibling = npos,
                           degree = 0\<rparr>,
                        \<lparr>item_index = 2, parent = npos, child = npos, right_sibling = 1,
                           degree = 0\<rparr>],
                head = 3, topn = 1, index_array = [0, 1, 2, 3]\<rparr>)"
  by (simp add: heap_eval)

text \<open>
  C1. Extraction is to move the last value slot's contents into the slot vacated by the
  removed top, repoint the moved value's node at that slot, and leave every other live
  value alone. \<^verbatim>\<open>pop\<close> writes to \<^verbatim>\<open>elements_[temp]\<close>, where \<^verbatim>\<open>temp\<close> is the old \<^verbatim>\<open>top_\<close>, a
  node index, not that node's \<^verbatim>\<open>item_index\<close>. After push 0, pop, push 1, push 2, push 3 the
  top is node 1, whose value 1 is in slot 0. Its extraction overwrites slot 1, the slot
  of the live value 2, with the last value 3 and drops the last slot: the store keeps the
  removed value 1, the live value 2 is gone, the nodes 2 and 3 both refer to slot 1, and
  the extremal query answers 3 although 2 was never extracted. Every access is in range.
\<close>

theorem pop_compacts_wrong_slot:
  "\<exists>s s'. run key_less snd (binomial_heap 4)
             [Push (0, 0), Pop, Push (1, 1), Push (2, 2), Push (3, 3)] = Some (Inr s)
     \<and> heap_top s = Inr (1, 1) \<and> topn s = 1 \<and> item_index (data s ! 1) = 0
     \<and> elements s = [(1, 1), (2, 2), (3, 3)]
     \<and> pop key_less snd s = Some (Inr s')
     \<and> elements s' = [(1, 1), (3, 3)]
     \<and> item_index (data s' ! 2) = 1 \<and> item_index (data s' ! 3) = 1
     \<and> topn s' = 2 \<and> heap_top s' = Inr (3, 3)"
  unfolding run_push_pop_push3 by (simp add: heap_eval)

section \<open>The scenario of six keys\<close>

lemma run_six_keys:
  "run key_less snd (binomial_heap 6)
       [Push (5, 0), Push (3, 1), Push (8, 2), Push (1, 3), Push (9, 4), Push (2, 5)] =
     Some (Inr \<lparr>elements = [(5, 0), (3, 1), (8, 2), (1, 3), (9, 4), (2, 5)],
                data = [\<lparr>item_index = 0, parent = 1, child = npos, right_sibling = npos,
                           degree = 0\<rparr>,
                        \<lparr>item_index = 1, parent = 3, child = 0, right_sibling = 2,
                           degree = 1\<rparr>,
                        \<lparr>item_index = 2, parent = 3, child = npos, right_sibling = npos,
                           degree = 0\<rparr>,
                        \<lparr>item_index = 3, parent = npos, child = 1, right_sibling = npos,
                           degree = 2\<rparr>,
                        \<lparr>item_index = 4, parent = 5, child = npos, right_sibling = npos,
                           degree = 0\<rparr>,
                        \<lparr>item_index = 5, parent = npos, child = 4, right_sibling = 3,
                           degree = 1\<rparr>],
                head = 5, topn = 3, index_array = [0, 1, 2, 3, 4, 5]\<rparr>)"
  by (simp add: heap_eval)

text \<open>
  C2. With the keys 5, 3, 8, 1, 9, 2 inserted into a min-oriented heap the extremal query
  answers 1 and the first extraction leaves 2 on top, in node 5, whose value was moved to
  slot 3. The second extraction writes \<^verbatim>\<open>elements_[5]\<close> in a vector of five values: the
  access is out of range, so the run does not go on to yield 3, 5, 8, 9.
\<close>

theorem six_keys_second_pop_out_of_range:
  "\<exists>s s'. run key_less snd (binomial_heap 6)
             [Push (5, 0), Push (3, 1), Push (8, 2), Push (1, 3), Push (9, 4), Push (2, 5)] =
               Some (Inr s)
     \<and> heap_top s = Inr (1, 3)
     \<and> pop key_less snd s = Some (Inr s')
     \<and> heap_top s' = Inr (2, 5) \<and> topn s' = 5 \<and> length (elements s') = 5
     \<and> pop key_less snd s' = Some (Inl ElementsOutOfRange)"
  unfolding run_six_keys by (simp add: heap_eval)

section \<open>Union on the empty list of children\<close>

lemma run_three_keys_min_last:
  "run key_less snd (binomial_heap 3) [Push (2, 0), Push (3, 1), Push (1, 2)] =
     Some (Inr \<lparr>elements = [(2, 0), (3, 1), (1, 2)],
                data = [\<lparr>item_index = 0, parent = npos, child = 1, right_sibling = npos,
                           degree = 1\<rparr>,
                        \<lparr>item_index = 1, parent = 0, child = npos, right_sibling = npos,
                           degree = 0\<rparr>,
                        \<lparr>item_index = 2, parent = npos, child = npos, right_sibling = 0,
                           degree = 0\<rparr>],
                head = 2, topn = 2, index_array = [0, 1, 2]\<rparr>)"
  by (simp add: heap_eval)

text \<open>
  C3. Union is to make no access out of range when it is called by insertion or by
  extraction on a reachable heap. After the insertions of 2, 3, 1 the top is the root of
  degree 0 and has a right sibling. Its extraction calls \<^verbatim>\<open>binomial_heap_union(new_head)\<close>
  with \<^verbatim>\<open>new_head = -1\<close>, the empty list of children, and the first statement of
  \<^verbatim>\<open>merge\<close> reads \<^verbatim>\<open>data_[q].degree\<close> for \<^verbatim>\<open>q = -1\<close>: the node vector is read out of range.
\<close>

theorem union_reads_node_at_none:
  "\<exists>s. run key_less snd (binomial_heap 3) [Push (2, 0), Push (3, 1), Push (1, 2)] = Some (Inr s)
     \<and> heap_top s = Inr (1, 2) \<and> head s = topn s \<and> child (data s ! topn s) = npos
     \<and> right_sibling (data s ! head s) = 0
     \<and> merge (data s) 0 npos = Some (Inl DataOutOfRange)
     \<and> binomial_heap_union key_less (elements s) (data s) 0 npos = Some (Inl DataOutOfRange)
     \<and> pop key_less snd s = Some (Inl DataOutOfRange)"
  unfolding run_three_keys_min_last by (simp add: heap_eval)

section \<open>Violated preconditions\<close>

text \<open>
  C4, as the claim states it, fails: extraction on the empty heap returns normally with
  the heap unchanged, and an update with a handle that was never inserted (capacity 2,
  the value with handle 0 inserted, the update given a value with handle 1) returns
  normally after overwriting the value of node 0.
\<close>

theorem violations_unreported_counterexample:
  "pop key_less snd (binomial_heap 0) = Some (Inr (binomial_heap 0))
   \<and> run key_less snd (binomial_heap 2) [Push (7, 0), Update (3, 1)] =
       Some (Inr \<lparr>elements = [(3, 1)], data = [leaf 0], head = 0, topn = 0,
                  index_array = [0, 0]\<rparr>)"
  by (simp add: heap_eval)

text \<open>
  C4, amended. Extraction on a heap whose root list is empty returns normally and leaves
  the heap as it was: nothing is reported. The extremal query on a heap whose top
  reference is "none" has no check either: it indexes the node vector at the sentinel,
  out of range, which is the error value of the model and never a value of the heap.
  Update makes no check that the handle is live: with a handle inside the capacity that
  was never inserted it can return normally, having overwritten a live value.
\<close>

theorem violations_unchecked:
  "(head s = npos \<longrightarrow> pop cmp ident s = Some (Inr s))
   \<and> (topn s = npos \<longrightarrow> length (data s) \<le> npos \<longrightarrow> heap_top s = Inl DataOutOfRange)
   \<and> update key_less snd
        \<lparr>elements = [(7, 0)], data = [leaf 0], head = 0, topn = 0, index_array = [0, 0]\<rparr>
        (3, 1) =
       Some (Inr \<lparr>elements = [(3, 1)], data = [leaf 0], head = 0, topn = 0,
                  index_array = [0, 0]\<rparr>)"
proof (intro conjI impI)
  assume "head s = npos"
  then show "pop cmp ident s = Some (Inr s)"
    by (simp add: pop_def)
next
  assume "topn s = npos" and "length (data s) \<le> npos"
  then show "heap_top s = Inl DataOutOfRange"
    by (simp add: heap_top_def elem_at_def node_at_def)
next
  show "update key_less snd
        \<lparr>elements = [(7, 0)], data = [leaf 0], head = 0, topn = 0, index_array = [0, 0]\<rparr>
        (3, 1) =
       Some (Inr \<lparr>elements = [(3, 1)], data = [leaf 0], head = 0, topn = 0,
                  index_array = [0, 0]\<rparr>)"
    by (simp add: heap_eval)
qed

theorem violations_unchecked_witness:
  "head (binomial_heap 0 :: (int \<times> nat) binomial_heap) = npos
   \<and> pop key_less snd (binomial_heap 0) = Some (Inr (binomial_heap 0))
   \<and> topn (binomial_heap 0 :: (int \<times> nat) binomial_heap) = npos
   \<and> length (data (binomial_heap 0 :: (int \<times> nat) binomial_heap)) \<le> npos
   \<and> heap_top (binomial_heap 0 :: (int \<times> nat) binomial_heap) = Inl DataOutOfRange"
  using violations_unchecked [of "binomial_heap 0 :: (int \<times> nat) binomial_heap" key_less snd]
  by (simp add: binomial_heap_def)

section \<open>Extraction after an earlier extraction\<close>

text \<open>
  C8. Two insertions and two extractions, each on a heap that is not empty, are to leave
  size 0. After push 1, push 2, pop the heap has size 1 and its only value is in slot 0,
  owned by node 1. The second pop writes \<^verbatim>\<open>elements_[1]\<close> in a vector of one value: the
  access is out of range and no size is returned.
\<close>

theorem size_after_two_pops_out_of_range:
  "\<exists>s. run key_less snd (binomial_heap 2) [Push (1, 0), Push (2, 1), Pop] = Some (Inr s)
     \<and> heap_size s = 1 \<and> \<not> heap_empty s
     \<and> run key_less snd (binomial_heap 2) [Push (1, 0), Push (2, 1), Pop, Pop] =
         Some (Inl ElementsOutOfRange)"
  by (simp add: heap_eval)

text \<open>
  C9. A heap with exactly one element is to be left with the "none" sentinel in the head
  and in the top reference by an extraction. After push 1, push 2, push 3, pop, pop the
  heap holds the single value 3, in slot 0, owned by node 2. Its extraction writes
  \<^verbatim>\<open>elements_[2]\<close> in a vector of one value: the access is out of range.
\<close>

theorem sole_element_pop_out_of_range:
  "\<exists>s. run key_less snd (binomial_heap 3) [Push (1, 0), Push (2, 1), Push (3, 2), Pop, Pop] =
         Some (Inr s)
     \<and> elements s = [(3, 2)] \<and> head s = 2 \<and> topn s = 2 \<and> item_index (data s ! 2) = 0
     \<and> pop key_less snd s = Some (Inl ElementsOutOfRange)"
  by (simp add: heap_eval)

section \<open>Accesses: when they succeed and which error they give\<close>

lemma node_at_Inr: "node_at d i = Inr n \<longleftrightarrow> i < length d \<and> n = d ! i"
  by (auto simp: node_at_def)
lemma node_at_Inl: "node_at d i = Inl e \<longleftrightarrow> \<not> i < length d \<and> e = DataOutOfRange"
  by (auto simp: node_at_def)
lemma node_upd_Inr: "node_upd d i f = Inr d' \<longleftrightarrow> i < length d \<and> d' = d[i := f (d ! i)]"
  by (auto simp: node_upd_def)
lemma node_upd_Inl: "node_upd d i f = Inl e \<longleftrightarrow> \<not> i < length d \<and> e = DataOutOfRange"
  by (auto simp: node_upd_def)
lemma value_at_Inr: "value_at es i = Inr v \<longleftrightarrow> i < length es \<and> v = es ! i"
  by (auto simp: value_at_def)
lemma value_at_Inl: "value_at es i = Inl e \<longleftrightarrow> \<not> i < length es \<and> e = ElementsOutOfRange"
  by (auto simp: value_at_def)
lemma value_upd_Inr: "value_upd es i v = Inr es' \<longleftrightarrow> i < length es \<and> es' = es[i := v]"
  by (auto simp: value_upd_def)
lemma value_upd_Inl: "value_upd es i v = Inl e \<longleftrightarrow> \<not> i < length es \<and> e = ElementsOutOfRange"
  by (auto simp: value_upd_def)
lemma handle_at_Inr: "handle_at ia h = Inr i \<longleftrightarrow> h < length ia \<and> i = ia ! h"
  by (auto simp: handle_at_def)
lemma handle_at_Inl: "handle_at ia h = Inl e \<longleftrightarrow> \<not> h < length ia \<and> e = IndexArrayOutOfRange"
  by (auto simp: handle_at_def)
lemma handle_upd_Inr: "handle_upd ia h i = Inr ia' \<longleftrightarrow> h < length ia \<and> ia' = ia[h := i]"
  by (auto simp: handle_upd_def)
lemma handle_upd_Inl: "handle_upd ia h i = Inl e \<longleftrightarrow> \<not> h < length ia \<and> e = IndexArrayOutOfRange"
  by (auto simp: handle_upd_def)
lemma elem_at_Inr:
  "elem_at es d i = Inr v \<longleftrightarrow>
     i < length d \<and> item_index (d ! i) < length es \<and> v = es ! item_index (d ! i)"
  by (auto simp: elem_at_def node_at_def value_at_def)
lemma elem_at_Inl:
  "elem_at es d i = Inl e \<longleftrightarrow>
     (\<not> i < length d \<and> e = DataOutOfRange)
     \<or> (i < length d \<and> \<not> item_index (d ! i) < length es \<and> e = ElementsOutOfRange)"
  by (auto simp: elem_at_def node_at_def value_at_def)

lemmas access_iff = node_at_Inr node_at_Inl node_upd_Inr node_upd_Inl value_at_Inr value_at_Inl
  value_upd_Inr value_upd_Inl handle_at_Inr handle_at_Inl handle_upd_Inr handle_upd_Inl
  elem_at_Inr elem_at_Inl

lemma case_sum_no_error:
  "x \<noteq> Inl E \<Longrightarrow> (\<And>v. x = Inr v \<Longrightarrow> f v \<noteq> Inl E)
    \<Longrightarrow> (case x of Inl e \<Rightarrow> Inl e | Inr v \<Rightarrow> f v) \<noteq> Inl E"
  by (cases x) auto

lemma if_no_error:
  "(c \<Longrightarrow> a \<noteq> Inl E) \<Longrightarrow> (\<not> c \<Longrightarrow> b \<noteq> Inl E) \<Longrightarrow> (if c then a else b) \<noteq> Inl E"
  by simp

lemma case_sum_no_error_opt:
  "x \<noteq> Inl E \<Longrightarrow> (\<And>v. x = Inr v \<Longrightarrow> f v \<noteq> Some (Inl E))
    \<Longrightarrow> (case x of Inl e \<Rightarrow> Some (Inl e) | Inr v \<Rightarrow> f v) \<noteq> Some (Inl E)"
  by (cases x) auto

lemma if_no_error_opt:
  "(c \<Longrightarrow> a \<noteq> Some (Inl E)) \<Longrightarrow> (\<not> c \<Longrightarrow> b \<noteq> Some (Inl E))
    \<Longrightarrow> (if c then a else b) \<noteq> Some (Inl E)"
  by simp

lemma case_prod_no_error_opt:
  "(\<And>a b. p = (a, b) \<Longrightarrow> f a b \<noteq> Some (Inl E)) \<Longrightarrow> (case p of (a, b) \<Rightarrow> f a b) \<noteq> Some (Inl E)"
  by (cases p) auto

lemma case_option_no_error_opt:
  "(\<And>r. m = Some r \<Longrightarrow> r \<noteq> Inl E) \<Longrightarrow> (\<And>v. m = Some (Inr v) \<Longrightarrow> f v \<noteq> Some (Inl E))
    \<Longrightarrow> (case m of None \<Rightarrow> None | Some (Inl e) \<Rightarrow> Some (Inl e) | Some (Inr v) \<Rightarrow> f v)
         \<noteq> Some (Inl E)"
  by (cases m) (auto split: sum.splits)

lemmas no_error_intros = case_sum_no_error if_no_error case_sum_no_error_opt if_no_error_opt
  case_prod_no_error_opt case_option_no_error_opt

lemma node_at_error: "node_at d i \<noteq> Inl IndexArrayOutOfRange"
  by (simp add: node_at_def)
lemma node_upd_error: "node_upd d i f \<noteq> Inl IndexArrayOutOfRange"
  by (simp add: node_upd_def)
lemma value_at_error: "value_at es i \<noteq> Inl IndexArrayOutOfRange"
  by (simp add: value_at_def)
lemma value_upd_error: "value_upd es i v \<noteq> Inl IndexArrayOutOfRange"
  by (simp add: value_upd_def)
lemma elem_at_error: "elem_at es d i \<noteq> Inl IndexArrayOutOfRange"
  unfolding elem_at_def by (intro no_error_intros node_at_error value_at_error)
lemma merge_take_p_error: "merge_take_p d p q \<noteq> Inl IndexArrayOutOfRange"
  unfolding merge_take_p_def by (intro no_error_intros node_at_error; simp)
lemma union_skip_error: "union_skip d x nx \<noteq> Inl IndexArrayOutOfRange"
  unfolding union_skip_def by (intro no_error_intros node_at_error; simp)
lemma binomial_link_error: "binomial_link d y z \<noteq> Inl IndexArrayOutOfRange"
  unfolding binomial_link_def by (intro no_error_intros node_at_error node_upd_error)
lemma union_link_error: "union_link cmp es d h pv x nx \<noteq> Inl IndexArrayOutOfRange"
  unfolding union_link_def
  by (intro no_error_intros node_at_error node_upd_error elem_at_error binomial_link_error; simp)

lemmas base_no_error = node_at_error node_upd_error value_at_error value_upd_error elem_at_error
  merge_take_p_error union_skip_error binomial_link_error union_link_error

lemma merge_loop_error:
  assumes "merge_loop d p q c = Some r"
  shows "r \<noteq> Inl IndexArrayOutOfRange"
proof (rule merge_loop.raw_induct [where P = "\<lambda>_ _ _ _ r. r \<noteq> Inl IndexArrayOutOfRange", OF _ assms],
    goal_cases)
  case (1 f d p q c r)
  have "Some r \<noteq> Some (Inl IndexArrayOutOfRange)"
    unfolding 1(2)[symmetric]
    by (intro no_error_intros base_no_error) (auto dest: 1(1))
  then show ?case by simp
qed

lemma union_loop_error:
  assumes "union_loop cmp es d h pv x nx = Some r"
  shows "r \<noteq> Inl IndexArrayOutOfRange"
proof (rule union_loop.raw_induct [where P = "\<lambda>_ _ _ _ _ _ _ r. r \<noteq> Inl IndexArrayOutOfRange", OF _ assms],
    goal_cases)
  case (1 f cmp es d h pv x nx r)
  have "Some r \<noteq> Some (Inl IndexArrayOutOfRange)"
    unfolding 1(2)[symmetric]
    by (intro no_error_intros base_no_error) (auto dest: 1(1))
  then show ?case by simp
qed

lemma get_new_top_loop_error:
  assumes "get_new_top_loop cmp es d t tmp = Some r"
  shows "r \<noteq> Inl IndexArrayOutOfRange"
proof (rule get_new_top_loop.raw_induct [where P = "\<lambda>_ _ _ _ _ r. r \<noteq> Inl IndexArrayOutOfRange", OF _ assms],
    goal_cases)
  case (1 f cmp es d t tmp r)
  have "Some r \<noteq> Some (Inl IndexArrayOutOfRange)"
    unfolding 1(2)[symmetric]
    by (intro no_error_intros base_no_error) (auto dest: 1(1))
  then show ?case by simp
qed

lemma pop_reverse_loop_error:
  assumes "pop_reverse_loop d nh th = Some r"
  shows "r \<noteq> Inl IndexArrayOutOfRange"
proof (rule pop_reverse_loop.raw_induct [where P = "\<lambda>_ _ _ r. r \<noteq> Inl IndexArrayOutOfRange", OF _ assms],
    goal_cases)
  case (1 f d nh th r)
  have "Some r \<noteq> Some (Inl IndexArrayOutOfRange)"
    unfolding 1(2)[symmetric]
    by (intro no_error_intros base_no_error) (auto dest: 1(1))
  then show ?case by simp
qed

lemma pop_find_loop_error:
  assumes "pop_find_loop d t tmp = Some r"
  shows "r \<noteq> Inl IndexArrayOutOfRange"
proof (rule pop_find_loop.raw_induct [where P = "\<lambda>_ _ _ r. r \<noteq> Inl IndexArrayOutOfRange", OF _ assms],
    goal_cases)
  case (1 f d t tmp r)
  have "Some r \<noteq> Some (Inl IndexArrayOutOfRange)"
    unfolding 1(2)[symmetric]
    by (intro no_error_intros base_no_error) (auto dest: 1(1))
  then show ?case by simp
qed

lemma merge_error: "merge d h i \<noteq> Some (Inl IndexArrayOutOfRange)"
  unfolding merge_def
  by (intro no_error_intros base_no_error) (auto dest: merge_loop_error)

lemma binomial_heap_union_error:
  "binomial_heap_union cmp es d h i \<noteq> Some (Inl IndexArrayOutOfRange)"
  unfolding binomial_heap_union_def
  by (intro no_error_intros base_no_error) (auto dest: union_loop_error simp: merge_error)

lemma get_new_top_error: "get_new_top cmp es d h \<noteq> Some (Inl IndexArrayOutOfRange)"
  unfolding get_new_top_def
  by (intro no_error_intros base_no_error) (auto dest: get_new_top_loop_error)

lemma pop_detach_error: "pop_detach cmp es d h t nh \<noteq> Some (Inl IndexArrayOutOfRange)"
  unfolding pop_detach_def
  by (intro no_error_intros base_no_error)
     (auto dest: pop_find_loop_error simp: binomial_heap_union_error)

lemma case_sum_if:
  "(case (if c then Inr a else Inl b) of Inl e \<Rightarrow> f e | Inr v \<Rightarrow> g v) = (if c then g a else f b)"
  by simp

lemmas access_defs = node_at_def node_upd_def value_at_def value_upd_def handle_at_def
  handle_upd_def elem_at_def case_sum_if

lemma update_swap_Inr:
  "update_swap ident dv es d ia index par = Inr (es2, ia1) \<longleftrightarrow>
     par < length d \<and> index < length d
     \<and> item_index (d ! par) < length es \<and> item_index (d ! index) < length es
     \<and> es2 = es[item_index (d ! index) := es ! item_index (d ! par), item_index (d ! par) := dv]
     \<and> ident (es2 ! item_index (d ! index)) < length ia
     \<and> ia1 = ia[ident (es2 ! item_index (d ! index)) := index]"
  unfolding update_swap_def access_defs by auto


lemma set_update_ok:
  "\<forall>v\<in>set es. P v \<Longrightarrow> P w \<Longrightarrow> \<forall>v\<in>set (es[i := w]). P v"
  using set_update_subset_insert [of es i w] by auto

lemma update_swap_error:
  assumes "\<forall>v\<in>set es. ident v < length ia" and "ident dv < length ia"
  shows "update_swap ident dv es d ia index par \<noteq> Inl IndexArrayOutOfRange"
  unfolding update_swap_def
proof ((intro no_error_intros base_no_error; (simp; fail)?), goal_cases)
  case (1 vp ni es1 np es2 vi)
  from 1(1) have "vp \<in> set es" by (auto simp: elem_at_Inr)
  with assms have "ident vp < length ia" by blast
  with assms(1) have "\<forall>v\<in>set es1. ident v < length ia"
    using 1(3) set_update_ok [of es "\<lambda>v. ident v < length ia" vp]
    by (simp add: value_upd_Inr)
  with assms(2) have "\<forall>v\<in>set es2. ident v < length ia"
    using 1(5) set_update_ok [of es1 "\<lambda>v. ident v < length ia" dv]
    by (simp add: value_upd_Inr)
  moreover from 1(6) have "vi \<in> set es2" by (auto simp: elem_at_Inr)
  ultimately show ?case by (simp add: handle_upd_Inl)
qed

lemma update_swap_handles:
  assumes "update_swap ident dv es d ia index par = Inr sw"
    and "\<forall>v\<in>set es. ident v < length ia" and "ident dv < length ia"
  shows "(\<forall>v\<in>set (fst sw). ident v < length (snd sw)) \<and> length (snd sw) = length ia"
proof -
  obtain es2 ia1 where sw: "sw = (es2, ia1)" by (cases sw)
  from assms(1) have es2: "es2 = es[item_index (d ! index) := es ! item_index (d ! par),
      item_index (d ! par) := dv]"
    and ia1: "length ia1 = length ia" and par: "item_index (d ! par) < length es"
    unfolding sw by (auto simp: update_swap_Inr)
  from par assms(2) have "ident (es ! item_index (d ! par)) < length ia" by simp
  with assms(2,3) show ?thesis unfolding sw es2 fst_conv snd_conv ia1
    by (intro conjI set_update_ok) auto
qed

lemma update_loop_handles:
  assumes "update_loop cmp ident dv es d ia index par = Some r"
    and "\<forall>v\<in>set es. ident v < length ia" and "ident dv < length ia"
  shows "r \<noteq> Inl IndexArrayOutOfRange
    \<and> (\<forall>es' ia' i'. r = Inr (es', ia', i') \<longrightarrow>
          (\<forall>v\<in>set es'. ident v < length ia') \<and> length ia' = length ia)"
proof -
  have "(\<forall>v\<in>set es. ident v < length ia) \<longrightarrow> ident dv < length ia \<longrightarrow>
      r \<noteq> Inl IndexArrayOutOfRange
    \<and> (\<forall>es' ia' i'. r = Inr (es', ia', i') \<longrightarrow>
          (\<forall>v\<in>set es'. ident v < length ia') \<and> length ia' = length ia)"
  proof (rule update_loop.raw_induct [where P = "\<lambda>cmp ident dv es d ia index par r.
      (\<forall>v\<in>set es. ident v < length ia) \<longrightarrow> ident dv < length ia \<longrightarrow>
      r \<noteq> Inl IndexArrayOutOfRange
    \<and> (\<forall>es' ia' i'. r = Inr (es', ia', i') \<longrightarrow>
          (\<forall>v\<in>set es'. ident v < length ia') \<and> length ia' = length ia)", OF _ assms(1)],
      goal_cases)
    case (1 f cmp ident dv es d ia index par r)
    show ?case
    proof (intro impI)
      assume ok: "\<forall>v\<in>set es. ident v < length ia" and dv: "ident dv < length ia"
      note sw = update_swap_error [OF ok dv, of d index par]
      from 1(2) show "r \<noteq> Inl IndexArrayOutOfRange
        \<and> (\<forall>es' ia' i'. r = Inr (es', ia', i') \<longrightarrow>
          (\<forall>v\<in>set es'. ident v < length ia') \<and> length ia' = length ia)"
        using ok dv sw elem_at_error [of es d par] node_at_error [of d par]
        by (auto split: if_splits sum.splits
            dest!: 1(1) update_swap_handles [OF _ ok dv])
    qed
  qed
  with assms show ?thesis by blast
qed

section \<open>The accesses to the handle index\<close>

lemma pop_compact_error:
  assumes "\<forall>v\<in>set es. ident v < length ia"
  shows "pop_compact ident es d ia temp \<noteq> Inl IndexArrayOutOfRange"
  unfolding pop_compact_def
proof ((intro no_error_intros base_no_error; (simp; fail)?), goal_cases)
  case (1 vl)
  then have "vl \<in> set es" by (auto simp: value_at_Inr)
  with assms show ?case by (simp add: handle_at_Inl)
qed

lemma pop_compact_values:
  assumes "pop_compact ident es d ia temp = Inr (es3, d3)"
  shows "set es3 \<subseteq> set es \<and> length es3 = length es - 1"
proof -
  from assms obtain vl where vl: "value_at es (last_index (length es)) = Inr vl"
    and es3: "es3 = butlast (es[temp := vl])"
    unfolding pop_compact_def by (auto simp: access_iff split: sum.splits)
  from vl have "vl \<in> set es" by (auto simp: value_at_Inr)
  then have "set (es[temp := vl]) \<subseteq> set es"
    using set_update_subset_insert [of es temp vl] by auto
  moreover have "set es3 \<subseteq> set (es[temp := vl])"
    unfolding es3 by (auto dest: in_set_butlastD)
  ultimately show ?thesis unfolding es3 by auto
qed

lemma push_handle_error_iff:
  "push cmp ident s v = Some (Inl IndexArrayOutOfRange) \<longleftrightarrow> \<not> ident v < length (index_array s)"
proof (cases "ident v < length (index_array s)")
  case False
  then show ?thesis by (simp add: push_def Let_def handle_upd_def)
next
  case True
  have "push cmp ident s v \<noteq> Some (Inl IndexArrayOutOfRange)"
    unfolding push_def Let_def
    by (intro no_error_intros base_no_error)
       (use True in \<open>auto simp: handle_upd_Inl binomial_heap_union_error\<close>)
  with True show ?thesis by simp
qed

lemma push_elements:
  assumes "push cmp ident s v = Some (Inr s')"
  shows "elements s' = elements s @ [v] \<and> length (index_array s') = length (index_array s)
    \<and> ident v < length (index_array s)"
  using assms unfolding push_def Let_def
  by (auto simp: handle_upd_Inr split: sum.splits if_splits option.splits prod.splits)

lemma pop_handle_error:
  assumes "handles_ok ident s"
  shows "pop cmp ident s \<noteq> Some (Inl IndexArrayOutOfRange)"
  unfolding pop_def
  by (intro no_error_intros base_no_error)
     (use assms in \<open>auto simp: handles_ok_def pop_compact_error pop_detach_error
        get_new_top_error dest: pop_reverse_loop_error split: if_splits\<close>)

lemma pop_elements:
  assumes "pop cmp ident s = Some (Inr s')"
  shows "set (elements s') \<subseteq> set (elements s) \<and> index_array s' = index_array s
    \<and> (if head s = npos then s' = s else length (elements s') = length (elements s) - 1)"
  using assms unfolding pop_def
  by (auto split: sum.splits if_splits option.splits prod.splits dest!: pop_compact_values)


lemma update_handle_error_iff:
  assumes "handles_ok ident s"
  shows "update cmp ident s v = Some (Inl IndexArrayOutOfRange)
    \<longleftrightarrow> \<not> ident v < length (index_array s)"
proof (cases "ident v < length (index_array s)")
  case False
  then show ?thesis by (simp add: update_def handle_at_def)
next
  case True
  have "update cmp ident s v \<noteq> Some (Inl IndexArrayOutOfRange)"
    unfolding update_def
  proof ((intro no_error_intros base_no_error; (simp add: True handle_at_Inl; fail)?), goal_cases)
    case (1 index ni es1 r)
    from 1(3) assms True have "\<forall>v\<in>set es1. ident v < length (index_array s)"
      using set_update_ok [of "elements s" "\<lambda>v. ident v < length (index_array s)" v]
      by (simp add: value_upd_Inr handles_ok_def)
    from update_loop_handles [OF 1(4) this True] show ?case by simp
  next
    case (2 index ni es1 p es2 q ia2 index2)
    from 2(3) assms True have "\<forall>v\<in>set es1. ident v < length (index_array s)"
      using set_update_ok [of "elements s" "\<lambda>v. ident v < length (index_array s)" v]
      by (simp add: value_upd_Inr handles_ok_def)
    from update_loop_handles [OF 2(4) this True] 2(5,6) True show ?case
      by (simp add: handle_upd_Inl)
  qed
  with True show ?thesis by simp
qed

lemma update_elements:
  assumes "update cmp ident s v = Some (Inr s')" and "handles_ok ident s"
  shows "handles_ok ident s' \<and> length (index_array s') = length (index_array s)
    \<and> ident v < length (index_array s)"
proof -
  from assms(1) obtain index es1 es2 ia2 index2 ia3 t where
    h: "handle_at (index_array s) (ident v) = Inr index"
    and es1: "value_upd (elements s) (item_index (data s ! index)) v = Inr es1"
    and lp: "update_loop cmp ident v es1 (data s) (index_array s) index
        (parent (data s ! index)) = Some (Inr (es2, ia2, index2))"
    and ia3: "handle_upd ia2 (ident v) index2 = Inr ia3"
    and s': "s' = s\<lparr>elements := es2, index_array := ia3, topn := t\<rparr>"
    unfolding update_def
    by (auto simp: node_at_Inr split: sum.splits option.splits prod.splits)
  from h have v: "ident v < length (index_array s)" by (simp add: handle_at_Inr)
  from es1 assms(2) v have "\<forall>v\<in>set es1. ident v < length (index_array s)"
    using set_update_ok [of "elements s" "\<lambda>v. ident v < length (index_array s)" v]
    by (simp add: value_upd_Inr handles_ok_def)
  from update_loop_handles [OF lp this v] ia3 v show ?thesis
    unfolding s' by (auto simp: handles_ok_def handle_upd_Inr)
qed

lemma apply_op_handles:
  assumes "handles_ok ident s" and "apply_op cmp ident s o1 = Some (Inr s')"
  shows "handles_ok ident s' \<and> length (index_array s') = length (index_array s)"
proof (cases o1)
  case (Push v)
  with assms(2) have "push cmp ident s v = Some (Inr s')" by (simp add: apply_op_def)
  from push_elements [OF this] assms(1) show ?thesis by (auto simp: handles_ok_def)
next
  case Pop
  with assms(2) have "pop cmp ident s = Some (Inr s')" by (simp add: apply_op_def)
  from pop_elements [OF this] assms(1) show ?thesis by (auto simp: handles_ok_def)
next
  case (Update v)
  with assms(2) have "update cmp ident s v = Some (Inr s')" by (simp add: apply_op_def)
  from update_elements [OF this assms(1)] show ?thesis by simp
qed

lemma run_handles:
  "handles_ok ident s \<Longrightarrow> run cmp ident s ops = Some (Inr s')
    \<Longrightarrow> handles_ok ident s' \<and> length (index_array s') = length (index_array s)"
proof (induction ops arbitrary: s)
  case Nil
  then show ?case by simp
next
  case (Cons o1 ops)
  from Cons.prems(2) obtain s1 where s1: "apply_op cmp ident s o1 = Some (Inr s1)"
    and r: "run cmp ident s1 ops = Some (Inr s')"
    by (auto split: option.splits sum.splits)
  from apply_op_handles [OF Cons.prems(1) s1] Cons.IH [OF _ r] show ?case by simp
qed

lemma apply_op_handle_error:
  assumes "handles_ok ident s"
    and "\<forall>v. o1 = Push v \<or> o1 = Update v \<longrightarrow> ident v < length (index_array s)"
  shows "apply_op cmp ident s o1 \<noteq> Some (Inl IndexArrayOutOfRange)"
  using assms push_handle_error_iff [of cmp ident s] update_handle_error_iff [OF assms(1), of cmp]
    pop_handle_error [OF assms(1), of cmp]
  by (cases o1) (auto simp: apply_op_def)

lemma run_handle_error:
  "handles_ok ident s
    \<Longrightarrow> \<forall>v. Push v \<in> set ops \<or> Update v \<in> set ops \<longrightarrow> ident v < length (index_array s)
    \<Longrightarrow> run cmp ident s ops \<noteq> Some (Inl IndexArrayOutOfRange)"
proof (induction ops arbitrary: s)
  case Nil
  then show ?case by simp
next
  case (Cons o1 ops)
  have e: "apply_op cmp ident s o1 \<noteq> Some (Inl IndexArrayOutOfRange)"
    using Cons.prems by (intro apply_op_handle_error) auto
  show ?case
  proof (cases "apply_op cmp ident s o1")
    case None
    then show ?thesis by simp
  next
    case (Some r)
    show ?thesis
    proof (cases r)
      case (Inl e')
      with Some e show ?thesis by auto
    next
      case (Inr s1)
      from apply_op_handles [OF Cons.prems(1)] Some Inr
      have "handles_ok ident s1" and "length (index_array s1) = length (index_array s)" by auto
      with Cons.IH [of s1] Cons.prems(2) Some Inr show ?thesis by auto
    qed
  qed
qed

text \<open>
  C10. Insertion and update index the handle index at the handle of their argument with
  no check. In a heap whose stored values all have handles below the capacity, insertion
  of \<open>v\<close> and update with \<open>v\<close> make an access to the handle index out of range exactly
  when the handle of \<open>v\<close> is not below the capacity, and extraction never does. The
  three-argument constructor gives a heap of capacity \<open>n\<close>; every state a run reaches from
  it keeps the capacity and has its stored handles below it, and a run whose inserted
  and updated values all have handles below \<open>n\<close> makes no access to the handle index out
  of range. The default constructor gives capacity 0: insertion and update fail on the
  handle index for every value.
\<close>

theorem handle_accesses_in_range_iff:
  "(handles_ok ident s \<longrightarrow>
      (push cmp ident s v = Some (Inl IndexArrayOutOfRange)
         \<longleftrightarrow> \<not> ident v < length (index_array s))
    \<and> (update cmp ident s v = Some (Inl IndexArrayOutOfRange)
         \<longleftrightarrow> \<not> ident v < length (index_array s))
    \<and> pop cmp ident s \<noteq> Some (Inl IndexArrayOutOfRange))
   \<and> handles_ok ident (binomial_heap n :: 'a binomial_heap)
   \<and> length (index_array (binomial_heap n :: 'a binomial_heap)) = n
   \<and> (\<forall>s'. run cmp ident (binomial_heap n) ops = Some (Inr s')
         \<longrightarrow> handles_ok ident s' \<and> length (index_array s') = n)
   \<and> ((\<forall>w. Push w \<in> set ops \<or> Update w \<in> set ops \<longrightarrow> ident w < n)
         \<longrightarrow> run cmp ident (binomial_heap n) ops \<noteq> Some (Inl IndexArrayOutOfRange))
   \<and> length (index_array (binomial_heap_default h t :: 'a binomial_heap)) = 0
   \<and> push cmp ident (binomial_heap_default h t) v = Some (Inl IndexArrayOutOfRange)
   \<and> update cmp ident (binomial_heap_default h t) v = Some (Inl IndexArrayOutOfRange)"
proof -
  have ok: "handles_ok ident (binomial_heap n :: 'a binomial_heap)"
    and len: "length (index_array (binomial_heap n :: 'a binomial_heap)) = n"
    by (simp_all add: handles_ok_def binomial_heap_def)
  have dok: "handles_ok ident (binomial_heap_default h t :: 'a binomial_heap)"
    and dlen: "length (index_array (binomial_heap_default h t :: 'a binomial_heap)) = 0"
    by (simp_all add: handles_ok_def binomial_heap_default_def)
  show ?thesis
    using push_handle_error_iff [of cmp ident s v] update_handle_error_iff [of ident s cmp v]
      pop_handle_error [of ident s cmp] ok len dlen
      run_handles [OF ok, of cmp ops] run_handle_error [OF ok, of ops cmp]
      push_handle_error_iff [of cmp ident "binomial_heap_default h t" v]
      update_handle_error_iff [OF dok, of cmp v]
    by simp
qed

theorem handle_accesses_in_range_iff_witness:
  "push key_less snd (binomial_heap 2) (5, 2) = Some (Inl IndexArrayOutOfRange)
   \<and> \<not> snd (5 :: int, 2 :: nat) < length (index_array (binomial_heap 2 :: (int \<times> nat) binomial_heap))
   \<and> push key_less snd (binomial_heap 2) (5, 1) \<noteq> Some (Inl IndexArrayOutOfRange)
   \<and> snd (5 :: int, 1 :: nat) < length (index_array (binomial_heap 2 :: (int \<times> nat) binomial_heap))
   \<and> update key_less snd (binomial_heap 2) (5, 2) = Some (Inl IndexArrayOutOfRange)
   \<and> pop key_less snd (binomial_heap 2) \<noteq> Some (Inl IndexArrayOutOfRange)
   \<and> run key_less snd (binomial_heap 2) [Push (5, 1)] =
       Some (Inr \<lparr>elements = [(5, 1)], data = [leaf 0], head = 0, topn = 0,
                  index_array = [0, 0]\<rparr>)
   \<and> length (index_array \<lparr>elements = [(5 :: int, 1 :: nat)], data = [leaf 0], head = 0,
                  topn = 0, index_array = [0, 0]\<rparr>) = 2"
  using handle_accesses_in_range_iff [of snd "binomial_heap 2" key_less "(5, 2)" 2
      "[Push (5, 1)]" 0 0]
    handle_accesses_in_range_iff [of snd "binomial_heap 2" key_less "(5, 1)" 2
      "[Push (5, 1)]" 0 0]
  by (simp add: heap_eval handles_ok_def)

section \<open>Update\<close>

lemma sift_inv_swap:
  assumes "sift_inv cmp dv es0 d es index"
    and "elem_at es d par = Inr vp" and "cmp dv vp"
    and "update_swap ident dv es d ia index par = Inr sw"
  shows "sift_inv cmp dv es0 d (fst sw) par"
proof -
  obtain es2 ia1 where sw: "sw = (es2, ia1)" by (cases sw)
  from assms(4) [unfolded sw] have es2: "es2 = es[item_index (d ! index) := es ! item_index (d ! par),
      item_index (d ! par) := dv]"
    and b: "par < length d" "item_index (d ! par) < length es" "item_index (d ! index) < length es"
    by (auto simp: update_swap_Inr)
  from assms(2) have vp: "vp = es ! item_index (d ! par)" by (simp add: elem_at_Inr)
  have "es2 ! k = es0 ! k \<or> es2 ! k = dv \<or> cmp dv (es2 ! k)" if "k < length es" for k
    using assms(1,3) that b unfolding es2 vp sift_inv_def
    by (auto simp: nth_list_update)
  with assms(1) b show ?thesis
    unfolding sift_inv_def sw fst_conv es2 by (simp add: elem_at_Inr)
qed

lemma update_loop_sift_inv_aux:
  assumes "update_loop cmp ident dv es d ia index par = Some r"
  shows "\<forall>es' ia' index'. r = Inr (es', ia', index') \<longrightarrow> sift_inv cmp dv es0 d es index
        \<longrightarrow> sift_inv cmp dv es0 d es' index'"
proof (rule update_loop.raw_induct [where P = "\<lambda>cmp ident dv es d ia index par r.
      \<forall>es' ia' index'. r = Inr (es', ia', index') \<longrightarrow> sift_inv cmp dv es0 d es index
        \<longrightarrow> sift_inv cmp dv es0 d es' index'", OF _ assms], goal_cases)
  case (1 f cmp ident dv es d ia index par r)
  show ?case
  proof (intro allI impI)
    fix es' ia' index'
    assume r: "r = Inr (es', ia', index')" and inv: "sift_inv cmp dv es0 d es index"
    from 1(2) r inv show "sift_inv cmp dv es0 d es' index'"
      by (auto split: if_splits sum.splits dest!: 1(1) dest: sift_inv_swap)
  qed
qed

lemma update_loop_sift_inv:
  assumes "update_loop cmp ident dv es d ia index par = Some (Inr (es', ia', index'))"
    and "sift_inv cmp dv es0 d es index"
  shows "sift_inv cmp dv es0 d es' index'"
  using update_loop_sift_inv_aux [OF assms(1)] assms(2) by blast

lemma update_top_value:
  assumes "update cmp ident s dv = Some (Inr s')" and "heap_top s = Inr t" and "cmp dv t"
  shows "heap_top s' = Inr dv"
proof -
  from assms(1) obtain index es1 es2 ia2 index2 ia3 vt where
    ni: "index < length (data s)"
    and es1: "value_upd (elements s) (item_index (data s ! index)) dv = Inr es1"
    and lp: "update_loop cmp ident dv es1 (data s) (index_array s) index
        (parent (data s ! index)) = Some (Inr (es2, ia2, index2))"
    and vt: "elem_at es2 (data s) (topn s) = Inr vt"
    and s': "s' = s\<lparr>elements := es2, index_array := ia3,
        topn := (if cmp dv vt then index2 else topn s)\<rparr>"
    unfolding update_def
    by (auto simp: node_at_Inr split: sum.splits option.splits prod.splits)
  from es1 have e1: "es1 = (elements s)[item_index (data s ! index) := dv]"
    and sl: "item_index (data s ! index) < length (elements s)"
    by (auto simp: value_upd_Inr)
  have "sift_inv cmp dv (elements s) (data s) es1 index"
    unfolding sift_inv_def e1 using ni sl by (auto simp: elem_at_Inr nth_list_update)
  from update_loop_sift_inv [OF lp this]
  have inv: "sift_inv cmp dv (elements s) (data s) es2 index2" .
  show ?thesis
  proof (cases "cmp dv vt")
    case True
    with inv show ?thesis unfolding s' by (simp add: heap_top_def sift_inv_def)
  next
    case False
    from vt have k: "item_index (data s ! topn s) < length es2"
      and vt': "vt = es2 ! item_index (data s ! topn s)" by (auto simp: elem_at_Inr)
    from assms(2) have t: "t = elements s ! item_index (data s ! topn s)"
      by (simp add: heap_top_def elem_at_Inr)
    from inv k have "vt = t \<or> vt = dv \<or> cmp dv vt"
      unfolding sift_inv_def vt' t by blast
    with False assms(3) have "vt = dv" by auto
    with False vt show ?thesis unfolding s' by (simp add: heap_top_def)
  qed
qed

lemma update_loop_refines:
  assumes "parent_chain d index as" and "index < length d"
    and "\<forall>i\<in>set (index # as). item_index (d ! i) < length es"
    and "distinct (map (\<lambda>i. item_index (d ! i)) (index # as))"
    and "es ! item_index (d ! index) = dv"
    and "\<forall>a\<in>set as. ident (es ! item_index (d ! a)) < length ia
          \<and> ident (es ! item_index (d ! a)) \<noteq> ident dv"
    and "ident dv < length ia" and "eq_except (ident dv) ia ia_s"
    and "ia_s ! ident dv = index"
    and "sift_up_spec cmp ident d es ia_s index as = (es', ia_s', index')"
  shows "\<exists>ia'. update_loop cmp ident dv es d ia index (parent (d ! index)) =
            Some (Inr (es', ia', index'))
          \<and> eq_except (ident dv) ia' ia_s' \<and> ia_s' ! ident dv = index'
          \<and> length ia' = length ia"
  using assms
proof (induction as arbitrary: es ia ia_s index)
  case Nil
  then show ?case by (subst update_loop.simps) simp
next
  case (Cons a as)
  let ?si = "item_index (d ! index)" and ?sa = "item_index (d ! a)"
  let ?vp = "es ! ?sa"
  from Cons.prems have par: "parent (d ! index) = a" "a \<noteq> npos" "a < length d"
    and ch: "parent_chain d a as" by auto
  from Cons.prems have si: "?si < length es" and sa: "?sa < length es" and ne: "?si \<noteq> ?sa"
    by auto
  have vp: "elem_at es d a = Inr ?vp" using par sa by (simp add: elem_at_Inr)
  show ?case
  proof (cases "cmp dv ?vp")
    case False
    with Cons.prems(5,8,9,10) par vp show ?thesis
      by (subst update_loop.simps) (auto simp: Let_def)
  next
    case True
    let ?es2 = "es[?si := ?vp, ?sa := dv]"
    let ?ia1 = "ia[ident ?vp := index]"
    let ?ias1 = "ia_s[ident ?vp := index, ident dv := a]"
    have hv: "ident ?vp < length ia" "ident ?vp \<noteq> ident dv" using Cons.prems(6) by auto
    have e2si: "?es2 ! ?si = ?vp" using si sa ne by simp
    have sw: "update_swap ident dv es d ia index a = Inr (?es2, ?ia1)"
      using par Cons.prems(2) si sa hv e2si by (simp add: update_swap_Inr)
    have sp: "sift_up_spec cmp ident d ?es2 ?ias1 a as = (es', ia_s', index')"
      using Cons.prems(10) Cons.prems(5) True by (simp add: Let_def swap_values_def)
    have others: "?es2 ! item_index (d ! b) = es ! item_index (d ! b)" if "b \<in> set as" for b
    proof -
      from that Cons.prems(4) have "item_index (d ! b) \<noteq> ?si" "item_index (d ! b) \<noteq> ?sa"
        by (auto simp: image_iff)
      then show ?thesis by simp
    qed
    have eq: "eq_except (ident dv) ?ia1 ?ias1"
      using Cons.prems(8) hv unfolding eq_except_def
      by (auto simp: nth_list_update)
    have "\<exists>ia'. update_loop cmp ident dv ?es2 d ?ia1 a (parent (d ! a)) =
            Some (Inr (es', ia', index'))
          \<and> eq_except (ident dv) ia' ia_s' \<and> ia_s' ! ident dv = index'
          \<and> length ia' = length ?ia1"
    proof (rule Cons.IH [OF ch par(3) _ _ _ _ _ eq _ sp])
      show "\<forall>i\<in>set (a # as). item_index (d ! i) < length ?es2"
        using Cons.prems(3) by simp
      show "distinct (map (\<lambda>i. item_index (d ! i)) (a # as))"
        using Cons.prems(4) by simp
      show "?es2 ! ?sa = dv" using sa by simp
      show "\<forall>b\<in>set as. ident (?es2 ! item_index (d ! b)) < length ?ia1
          \<and> ident (?es2 ! item_index (d ! b)) \<noteq> ident dv"
        using Cons.prems(6) others by simp
      show "ident dv < length ?ia1" using Cons.prems(7) by simp
      show "?ias1 ! ident dv = a"
        using Cons.prems(7,8) by (simp add: eq_except_def)
    qed
    with True par vp sw show ?thesis
      by (subst update_loop.simps) (simp add: node_at_def)
  qed
qed


text \<open>
  On a heap where the parent links from the node of the handle lead to a root, the value
  slots on that path are different and in range, and the handles on the path differ
  from the handle of the value, \<^verbatim>\<open>update\<close> returns the heap that section 4.5 describes.
\<close>

lemma update_refines:
  assumes "update_pre ident s dv as"
  shows "update cmp ident s dv = Some (Inr (update_spec cmp ident s dv as))"
proof -
  let ?index = "index_array s ! ident dv"
  let ?si = "item_index (data s ! ?index)"
  let ?es1 = "(elements s)[?si := dv]"
  obtain es2 ia2 index2 where
    sp: "sift_up_spec cmp ident (data s) ?es1 (index_array s) ?index as = (es2, ia2, index2)"
    by (cases "sift_up_spec cmp ident (data s) ?es1 (index_array s) ?index as") auto
  from assms have h: "ident dv < length (index_array s)"
    and ch: "parent_chain (data s) ?index as"
    and ib: "?index < length (data s)" and sb: "?si < length (elements s)"
    and tb: "topn s < length (data s)" "item_index (data s ! topn s) < length (elements s)"
    and slots: "\<forall>i\<in>set (?index # as). item_index (data s ! i) < length (elements s)"
    and dist: "distinct (map (\<lambda>i. item_index (data s ! i)) (?index # as))"
    and hs: "\<forall>a\<in>set as. ident (elements s ! item_index (data s ! a)) < length (index_array s)
          \<and> ident (elements s ! item_index (data s ! a)) \<noteq> ident dv"
    unfolding update_pre_def by auto
  have others: "?es1 ! item_index (data s ! a) = elements s ! item_index (data s ! a)"
    if "a \<in> set as" for a
  proof -
    from that dist have "item_index (data s ! a) \<noteq> ?si" by (auto simp: image_iff)
    then show ?thesis by simp
  qed
  have "\<exists>ia'. update_loop cmp ident dv ?es1 (data s) (index_array s) ?index
            (parent (data s ! ?index)) = Some (Inr (es2, ia', index2))
          \<and> eq_except (ident dv) ia' ia2 \<and> ia2 ! ident dv = index2
          \<and> length ia' = length (index_array s)"
  proof (rule update_loop_refines [OF ch ib _ dist _ _ h _ refl sp])
    show "\<forall>i\<in>set (?index # as). item_index (data s ! i) < length ?es1"
      using slots by simp
    show "?es1 ! ?si = dv" using sb by simp
    show "\<forall>a\<in>set as. ident (?es1 ! item_index (data s ! a)) < length (index_array s)
          \<and> ident (?es1 ! item_index (data s ! a)) \<noteq> ident dv"
      using hs others by simp
    show "eq_except (ident dv) (index_array s) (index_array s)"
      by (simp add: eq_except_def)
  qed
  then obtain ia' where lp: "update_loop cmp ident dv ?es1 (data s) (index_array s) ?index
            (parent (data s ! ?index)) = Some (Inr (es2, ia', index2))"
    and eq: "eq_except (ident dv) ia' ia2" and hd: "ia2 ! ident dv = index2"
    and hl': "length ia' = length (index_array s)" by blast
  have len2: "length es2 = length (elements s)"
    using update_loop_sift_inv [OF lp, of "elements s"] ib sb
    by (auto simp: sift_inv_def elem_at_Inr nth_list_update)
  have ia3: "ia'[ident dv := index2] = ia2"
  proof (rule nth_equalityI)
    show "length (ia'[ident dv := index2]) = length ia2"
      using eq by (simp add: eq_except_def)
    fix i assume "i < length (ia'[ident dv := index2])"
    then show "ia'[ident dv := index2] ! i = ia2 ! i"
      using eq hd by (cases "i = ident dv") (auto simp: eq_except_def)
  qed
  have hl: "ident dv < length ia'" using h hl' by simp
  show ?thesis
    unfolding update_def update_spec_def
    using h ib sb lp tb len2 ia3 hl sp
    by (simp add: access_iff node_at_def value_upd_def handle_at_def handle_upd_def
        elem_at_def value_at_def Let_def)
qed

lemma run_10_4_6:
  "run key_less snd (binomial_heap 3) [Push (10, 0), Push (4, 1), Push (6, 2)] =
     Some (Inr \<lparr>elements = [(10, 0), (4, 1), (6, 2)],
                data = [\<lparr>item_index = 0, parent = 1, child = npos, right_sibling = npos,
                           degree = 0\<rparr>,
                        \<lparr>item_index = 1, parent = npos, child = 0, right_sibling = npos,
                           degree = 1\<rparr>,
                        \<lparr>item_index = 2, parent = npos, child = npos, right_sibling = 1,
                           degree = 0\<rparr>],
                head = 2, topn = 1, index_array = [0, 1, 2]\<rparr>)"
  by (simp add: heap_eval)

lemma run_10_4_6_update:
  "run key_less snd (binomial_heap 3) [Push (10, 0), Push (4, 1), Push (6, 2), Update (1, 0)] =
     Some (Inr \<lparr>elements = [(4, 1), (1, 0), (6, 2)],
       data = [\<lparr>item_index = 0, parent = 1, child = npos, right_sibling = npos, degree = 0\<rparr>,
               \<lparr>item_index = 1, parent = npos, child = 0, right_sibling = npos, degree = 1\<rparr>,
               \<lparr>item_index = 2, parent = npos, child = npos, right_sibling = 1, degree = 0\<rparr>],
       head = 2, topn = 1, index_array = [1, 0, 2]\<rparr>)"
  by (simp add: heap_eval)

lemma run_update_after_pop:
  "run key_less snd (binomial_heap 4)
      [Push (0, 0), Pop, Push (5, 1), Push (1, 2), Push (7, 3), Pop] =
     Some (Inr \<lparr>elements = [(5, 1), (1, 2)],
       data = [leaf 0,
               \<lparr>item_index = 0, parent = npos, child = 3, right_sibling = npos, degree = 1\<rparr>,
               leaf 1,
               \<lparr>item_index = 2, parent = 1, child = npos, right_sibling = npos, degree = 0\<rparr>],
       head = 1, topn = 1, index_array = [0, 1, 2, 3]\<rparr>)"
  by (simp add: heap_eval)

text \<open>
  C7. Update of a value whose handle maps to a live node is to write the new value into
  that node's slot, sift it up, and reassign the top if it compares more favourably than
  the current top. After push 0, pop, push 5, push 1, push 7, pop (the values carry the
  handles 0, 1, 2, 3) the value 7 has been inserted and not extracted, and its handle 3
  maps to node 3, the child of the only root, node 1. The last extraction removed the
  top, the value 1 of node 2, by writing to \<^verbatim>\<open>elements_[2]\<close>, \<^verbatim>\<open>2\<close> being the index of the node
  and not its slot, and set the slot of node 3 to 2, while the value vector shrank to
  two values. Every access up to here is in range. The update of the value with handle 3
  to key 0 then executes \<^verbatim>\<open>elements_[data_[index].item_index] = d\<close> with the slot 2 in a
  vector of size 2: the access is out of range, nothing is written into a slot of the
  heap and no top is reassigned.
\<close>

theorem update_live_handle_out_of_range:
  "\<exists>s. run key_less snd (binomial_heap 4)
          [Push (0, 0), Pop, Push (5, 1), Push (1, 2), Push (7, 3), Pop] = Some (Inr s)
     \<and> index_array s ! 3 = 3 \<and> head s = 1 \<and> child (data s ! 1) = 3
     \<and> parent (data s ! 3) = 1
     \<and> item_index (data s ! 3) = 2 \<and> heap_size s = 2
     \<and> update key_less snd s (0, 3) = Some (Inl ElementsOutOfRange)"
  unfolding run_update_after_pop by (simp add: heap_eval)

section \<open>Insertions only: the extremal query\<close>

subsection \<open>Lists of siblings\<close>

lemma seg_append:
  "seg d h (xs @ ys) t \<longleftrightarrow> (\<exists>m. seg d h xs m \<and> seg d m ys t)"
  by (induction xs arbitrary: h) auto

lemma seg_frame:
  "seg d h xs t \<Longrightarrow> length d' = length d
    \<Longrightarrow> \<forall>i\<in>set xs. right_sibling (d' ! i) = right_sibling (d ! i) \<Longrightarrow> seg d' h xs t"
  by (induction xs arbitrary: h) auto

lemma seg_in_range: "seg d h xs t \<Longrightarrow> \<forall>i\<in>set xs. i < length d \<and> i \<noteq> npos"
  by (induction xs arbitrary: h) auto

lemma seg_upd_other: "seg d h xs t \<Longrightarrow> c \<notin> set xs \<Longrightarrow> seg (d[c := v]) h xs t"
  by (induction xs arbitrary: h) auto

lemma sibling_chain_Nil [simp]: "sibling_chain d h [] \<longleftrightarrow> h = npos"
  by (simp add: sibling_chain_def)

lemma sibling_chain_Cons:
  "sibling_chain d h (r # rs) \<longleftrightarrow>
     h = r \<and> r \<noteq> npos \<and> r < length d \<and> sibling_chain d (right_sibling (d ! r)) rs"
  by (simp add: sibling_chain_def)

lemma sibling_chain_frame:
  "sibling_chain d h xs \<Longrightarrow> length d' = length d
    \<Longrightarrow> \<forall>i\<in>set xs. right_sibling (d' ! i) = right_sibling (d ! i) \<Longrightarrow> sibling_chain d' h xs"
  unfolding sibling_chain_def by (rule seg_frame)

lemma sibling_chain_upd_other: "sibling_chain d h xs \<Longrightarrow> c \<notin> set xs \<Longrightarrow> sibling_chain (d[c := v]) h xs"
  unfolding sibling_chain_def by (rule seg_upd_other)

lemma sibling_chain_in_range: "sibling_chain d h xs \<Longrightarrow> \<forall>i\<in>set xs. i < length d \<and> i \<noteq> npos"
  unfolding sibling_chain_def by (rule seg_in_range)

lemma sibling_chain_head_npos: "sibling_chain d h xs \<Longrightarrow> h = npos \<longleftrightarrow> xs = []"
  by (cases xs) (auto simp: sibling_chain_Cons)

lemma merge_lists_set: "set (merge_lists d ps qs) = set ps \<union> set qs"
  by (induction d ps qs rule: merge_lists.induct) auto

lemma merge_lists_distinct:
  "distinct (ps @ qs) \<Longrightarrow> distinct (merge_lists d ps qs)"
  by (induction d ps qs rule: merge_lists.induct) (auto simp: merge_lists_set)

lemma merge_lists_Nil [simp]: "merge_lists d [] qs = qs"
  by (cases qs) auto

lemma merge_lists_frame:
  "\<forall>i\<in>set (ps @ qs). degree (d' ! i) = degree (d ! i) \<Longrightarrow> merge_lists d' ps qs = merge_lists d ps qs"
  by (induction d ps qs rule: merge_lists.induct) auto

lemma same_but_siblings_refl [simp]: "same_but_siblings d d"
  by (simp add: same_but_siblings_def)

lemma same_but_siblings_trans:
  "same_but_siblings d d1 \<Longrightarrow> same_but_siblings d1 d2 \<Longrightarrow> same_but_siblings d d2"
  unfolding same_but_siblings_def by simp

lemma same_but_siblings_upd:
  "same_but_siblings d (d[i := (d ! i)\<lparr>right_sibling := r\<rparr>])"
  unfolding same_but_siblings_def
proof (intro conjI allI impI)
  fix j assume "j < length d"
  then show "item_index (d[i := (d ! i)\<lparr>right_sibling := r\<rparr>] ! j) = item_index (d ! j)"
    "parent (d[i := (d ! i)\<lparr>right_sibling := r\<rparr>] ! j) = parent (d ! j)"
    "child (d[i := (d ! i)\<lparr>right_sibling := r\<rparr>] ! j) = child (d ! j)"
    "degree (d[i := (d ! i)\<lparr>right_sibling := r\<rparr>] ! j) = degree (d ! j)"
    by (cases "i = j"; simp)+
qed simp

lemma merge_lists_same:
  "same_but_siblings d d' \<Longrightarrow> \<forall>i\<in>set (ps @ qs). i < length d
    \<Longrightarrow> merge_lists d' ps qs = merge_lists d ps qs"
  by (rule merge_lists_frame) (simp add: same_but_siblings_def)

lemma merge_loop_total:
  assumes "sibling_chain d p ps" and "sibling_chain d q qs" and "distinct (ps @ qs)"
    and "cur < length d" and "cur \<notin> set (ps @ qs)"
  shows "\<exists>d'. merge_loop d p q cur = Some (Inr d')
    \<and> same_but_siblings d d'
    \<and> (\<forall>i. i \<notin> set (ps @ qs) \<and> i \<noteq> cur \<longrightarrow> d' ! i = d ! i)
    \<and> (if ps @ qs = [] then d' = d
        else sibling_chain d' (right_sibling (d' ! cur)) (merge_lists d ps qs))"
  using assms
proof (induction "length ps + length qs" arbitrary: d p q cur ps qs rule: less_induct)
  case less
  show ?case
  proof (cases "ps @ qs = []")
    case True
    with less.prems show ?thesis by (subst merge_loop.simps) simp
  next
    case False
    define tk where "tk \<longleftrightarrow> qs = [] \<or> (ps \<noteq> [] \<and> degree (d ! hd ps) < degree (d ! hd qs))"
    have pq: "p \<noteq> npos \<or> q \<noteq> npos"
      using False sibling_chain_head_npos [OF less.prems(1)] sibling_chain_head_npos [OF less.prems(2)] by auto
    have take: "merge_take_p d p q = Inr tk"
      using less.prems(1,2) False unfolding tk_def merge_take_p_def
      by (cases ps; cases qs) (auto simp: sibling_chain_Cons node_at_def)
    show ?thesis
    proof (cases tk)
      case True
      then obtain a ps' where ps: "ps = a # ps'" unfolding tk_def using False by (cases ps) auto
      with less.prems have a: "p = a" "a \<noteq> npos" "a < length d" "a \<noteq> cur"
        "a \<notin> set (ps' @ qs)"
        and ch: "sibling_chain d (right_sibling (d ! a)) ps'" by (auto simp: sibling_chain_Cons)
      let ?d1 = "d[cur := (d ! cur)\<lparr>right_sibling := a\<rparr>]"
      have ml: "merge_lists d ps qs = a # merge_lists d ps' qs"
        using True ps unfolding tk_def by (cases qs) auto
      have rng: "\<forall>i\<in>set (ps' @ qs). i < length d"
        using sibling_chain_in_range [OF ch] sibling_chain_in_range [OF less.prems(2)] by auto
      have ra: "?d1 ! a = d ! a" using a by simp
      have ch1: "sibling_chain ?d1 (right_sibling (?d1 ! a)) ps'"
        unfolding ra using less.prems(5) ps by (intro sibling_chain_upd_other [OF ch]) simp
      have ch2: "sibling_chain ?d1 q qs"
        using less.prems(5) by (intro sibling_chain_upd_other [OF less.prems(2)]) simp
      have "\<exists>d'. merge_loop ?d1 (right_sibling (?d1 ! a)) q a = Some (Inr d')
        \<and> same_but_siblings ?d1 d'
        \<and> (\<forall>i. i \<notin> set (ps' @ qs) \<and> i \<noteq> a \<longrightarrow> d' ! i = ?d1 ! i)
        \<and> (if ps' @ qs = [] then d' = ?d1
            else sibling_chain d' (right_sibling (d' ! a)) (merge_lists ?d1 ps' qs))"
      proof (rule less.hyps [OF _ ch1 ch2])
        show "length ps' + length qs < length ps + length qs" using ps by simp
        show "distinct (ps' @ qs)" using less.prems(3) ps by simp
        show "a < length ?d1" using a by simp
        show "a \<notin> set (ps' @ qs)" using a by simp
      qed
      then obtain d' where lp: "merge_loop ?d1 (right_sibling (?d1 ! a)) q a = Some (Inr d')"
        and sb: "same_but_siblings ?d1 d'"
        and fr: "\<forall>i. i \<notin> set (ps' @ qs) \<and> i \<noteq> a \<longrightarrow> d' ! i = ?d1 ! i"
        and rest: "if ps' @ qs = [] then d' = ?d1
            else sibling_chain d' (right_sibling (d' ! a)) (merge_lists ?d1 ps' qs)" by blast
      have len: "length d' = length d" using sb by (simp add: same_but_siblings_def)
      have cur': "d' ! cur = ?d1 ! cur" using fr less.prems(5) a ps by auto
      have m1: "merge_lists ?d1 ps' qs = merge_lists d ps' qs"
        using rng by (intro merge_lists_same same_but_siblings_upd) 
      have tail: "sibling_chain d' (right_sibling (d' ! a)) (merge_lists d ps' qs)"
      proof (cases "ps' @ qs = []")
        case True
        with rest ch1 show ?thesis by simp
      next
        case False
        with rest m1 show ?thesis by (auto split: if_splits)
      qed
      have "sibling_chain d' (right_sibling (d' ! cur)) (merge_lists d ps qs)"
        unfolding ml cur' using a less.prems(4) tail len by (simp add: sibling_chain_Cons)
      moreover have "same_but_siblings d d'"
        using same_but_siblings_trans [OF same_but_siblings_upd sb] .
      moreover have "\<forall>i. i \<notin> set (ps @ qs) \<and> i \<noteq> cur \<longrightarrow> d' ! i = d ! i"
        using fr ps by auto
      moreover have "merge_loop d p q cur = Some (Inr d')"
        using pq take True a less.prems(4) lp
        by (subst merge_loop.simps) (simp add: node_upd_def node_at_def)
      ultimately show ?thesis using False by auto
    next
      case nt: False
      then obtain b qs' where qs: "qs = b # qs'" unfolding tk_def by (cases qs) auto
      with less.prems have b: "q = b" "b \<noteq> npos" "b < length d" "b \<noteq> cur"
        "b \<notin> set (ps @ qs')"
        and ch: "sibling_chain d (right_sibling (d ! b)) qs'" by (auto simp: sibling_chain_Cons)
      let ?d1 = "d[cur := (d ! cur)\<lparr>right_sibling := b\<rparr>]"
      have ml: "merge_lists d ps qs = b # merge_lists d ps qs'"
        using nt qs unfolding tk_def by (cases ps) auto
      have rng: "\<forall>i\<in>set (ps @ qs'). i < length d"
        using sibling_chain_in_range [OF ch] sibling_chain_in_range [OF less.prems(1)] by auto
      have rb: "?d1 ! b = d ! b" using b by simp
      have ch1: "sibling_chain ?d1 (right_sibling (?d1 ! b)) qs'"
        unfolding rb using less.prems(5) qs by (intro sibling_chain_upd_other [OF ch]) simp
      have ch2: "sibling_chain ?d1 p ps"
        using less.prems(5) by (intro sibling_chain_upd_other [OF less.prems(1)]) simp
      have "\<exists>d'. merge_loop ?d1 p (right_sibling (?d1 ! b)) b = Some (Inr d')
        \<and> same_but_siblings ?d1 d'
        \<and> (\<forall>i. i \<notin> set (ps @ qs') \<and> i \<noteq> b \<longrightarrow> d' ! i = ?d1 ! i)
        \<and> (if ps @ qs' = [] then d' = ?d1
            else sibling_chain d' (right_sibling (d' ! b)) (merge_lists ?d1 ps qs'))"
      proof (rule less.hyps [OF _ ch2 ch1])
        show "length ps + length qs' < length ps + length qs" using qs by simp
        show "distinct (ps @ qs')" using less.prems(3) qs by simp
        show "b < length ?d1" using b by simp
        show "b \<notin> set (ps @ qs')" using b by simp
      qed
      then obtain d' where lp: "merge_loop ?d1 p (right_sibling (?d1 ! b)) b = Some (Inr d')"
        and sb: "same_but_siblings ?d1 d'"
        and fr: "\<forall>i. i \<notin> set (ps @ qs') \<and> i \<noteq> b \<longrightarrow> d' ! i = ?d1 ! i"
        and rest: "if ps @ qs' = [] then d' = ?d1
            else sibling_chain d' (right_sibling (d' ! b)) (merge_lists ?d1 ps qs')" by blast
      have len: "length d' = length d" using sb by (simp add: same_but_siblings_def)
      have cur': "d' ! cur = ?d1 ! cur" using fr less.prems(5) b qs by auto
      have m1: "merge_lists ?d1 ps qs' = merge_lists d ps qs'"
        using rng by (intro merge_lists_same same_but_siblings_upd)
      have tail: "sibling_chain d' (right_sibling (d' ! b)) (merge_lists d ps qs')"
      proof (cases "ps @ qs' = []")
        case True
        with rest ch1 show ?thesis by simp
      next
        case False
        with rest m1 show ?thesis by (auto split: if_splits)
      qed
      have "sibling_chain d' (right_sibling (d' ! cur)) (merge_lists d ps qs)"
        unfolding ml cur' using b less.prems(4) tail len by (simp add: sibling_chain_Cons)
      moreover have "same_but_siblings d d'"
        using same_but_siblings_trans [OF same_but_siblings_upd sb] .
      moreover have "\<forall>i. i \<notin> set (ps @ qs) \<and> i \<noteq> cur \<longrightarrow> d' ! i = d ! i"
        using fr qs by auto
      moreover have "merge_loop d p q cur = Some (Inr d')"
        using pq take nt b less.prems(4) lp
        by (subst merge_loop.simps) (simp add: node_upd_def node_at_def)
      ultimately show ?thesis using False by auto
    qed
  qed
qed

subsection \<open>merge and binomial\_link return\<close>

lemma list_update_thrice: "xs[i := a, j := b, i := c] = xs[j := b, i := c]"
  by (cases "i = j") (simp_all add: list_update_swap)

lemma binomial_link_Inr:
  "y < length d \<Longrightarrow> z < length d \<Longrightarrow> y \<noteq> z \<Longrightarrow> binomial_link d y z = Inr (linked d y z)"
  unfolding binomial_link_def linked_def node_upd_def node_at_def
  by (simp add: list_update_swap [of z y] list_update_thrice)

lemma linked_length [simp]: "length (linked d y z) = length d"
  by (simp add: linked_def)

lemma linked_other [simp]: "i \<noteq> y \<Longrightarrow> i \<noteq> z \<Longrightarrow> linked d y z ! i = d ! i"
  by (simp add: linked_def)

lemma linked_z:
  "z < length d \<Longrightarrow> linked d y z ! z = (d ! z)\<lparr>child := y, degree := (degree (d ! z) + 1) mod size_t_max\<rparr>"
  by (simp add: linked_def)

lemma linked_y:
  "y < length d \<Longrightarrow> y \<noteq> z \<Longrightarrow>
    linked d y z ! y = (d ! y)\<lparr>parent := z, right_sibling := child (d ! z)\<rparr>"
  by (simp add: linked_def)

lemma linked_item_index: "i < length d \<Longrightarrow> item_index (linked d y z ! i) = item_index (d ! i)"
  by (cases "i = z"; cases "i = y"; simp add: linked_def)

lemma seg_butlast:
  "seg d h xs t \<Longrightarrow> \<forall>i\<in>set xs. i < length d - 1 \<Longrightarrow> seg (butlast d) h xs t"
  by (induction xs arbitrary: h) (auto simp: nth_butlast)

lemma seg_snoc_node: "seg d h xs t \<Longrightarrow> seg (d @ [x]) h xs t"
  by (induction xs arbitrary: h) (auto simp: nth_append)

lemma seg_last: "seg d h xs t \<Longrightarrow> xs \<noteq> [] \<Longrightarrow> h = hd xs"
  by (cases xs) auto

lemma merge_lists_Nil_iff: "merge_lists d ps qs = [] \<longleftrightarrow> ps = [] \<and> qs = []"
  by (induction d ps qs rule: merge_lists.induct) auto

lemma merge_total:
  assumes "sibling_chain d h ps" and "sibling_chain d q qs" and "distinct (ps @ qs)"
    and "ps \<noteq> []" and "qs \<noteq> []"
  shows "\<exists>d'. merge d h q = Some (Inr (d', hd (merge_lists d ps qs)))
    \<and> same_but_siblings d d'
    \<and> (\<forall>i. i \<notin> set (ps @ qs) \<and> i < length d \<longrightarrow> d' ! i = d ! i)
    \<and> sibling_chain d' (hd (merge_lists d ps qs)) (merge_lists d ps qs)"
proof -
  let ?D = "d @ [default_node]"
  let ?ms = "merge_lists d ps qs"
  have rng: "\<forall>i\<in>set (ps @ qs). i < length d"
    using sibling_chain_in_range [OF assms(1)] sibling_chain_in_range [OF assms(2)] by auto
  have hq: "h < length d" "q < length d"
    using assms by (cases ps; cases qs; auto simp: sibling_chain_Cons)+
  have c1: "sibling_chain ?D h ps" and c2: "sibling_chain ?D q qs"
    using assms(1,2) unfolding sibling_chain_def by (auto intro: seg_snoc_node)
  have cur: "length d \<notin> set (ps @ qs)" using rng by auto
  from merge_loop_total [OF c1 c2 assms(3) _ cur]
  obtain d1 where lp: "merge_loop ?D h q (length d) = Some (Inr d1)"
    and sb: "same_but_siblings ?D d1"
    and fr: "\<forall>i. i \<notin> set (ps @ qs) \<and> i \<noteq> length d \<longrightarrow> d1 ! i = ?D ! i"
    and ch: "sibling_chain d1 (right_sibling (d1 ! length d)) (merge_lists ?D ps qs)"
    using assms(4) by auto
  have len: "length d1 = Suc (length d)" using sb by (simp add: same_but_siblings_def)
  have ms: "merge_lists ?D ps qs = ?ms"
    using rng by (intro merge_lists_frame) (auto simp: nth_append)
  have ne: "?ms \<noteq> []" using assms(4) by (simp add: merge_lists_Nil_iff)
  have d1: "d1 \<noteq> []" using len by auto
  have last: "last d1 = d1 ! length d" using len last_conv_nth [OF d1] by simp
  have hd: "right_sibling (d1 ! length d) = hd ?ms"
    using ch ne unfolding ms sibling_chain_def by (rule seg_last)
  have chb: "sibling_chain (butlast d1) (hd ?ms) ?ms"
    using ch rng len unfolding ms hd sibling_chain_def
    by (intro seg_butlast) (auto simp: merge_lists_set)
  have "same_but_siblings d (butlast d1)"
    using sb len unfolding same_but_siblings_def
    by (auto simp: nth_butlast nth_append)
  moreover have "\<forall>i. i \<notin> set (ps @ qs) \<and> i < length d \<longrightarrow> butlast d1 ! i = d ! i"
    using fr len by (auto simp: nth_butlast nth_append)
  moreover have "merge d h q = Some (Inr (butlast d1, hd ?ms))"
    using hq lp d1 last hd by (simp add: merge_def node_at_def)
  ultimately show ?thesis using chb by blast
qed

subsection \<open>The consolidation loop returns\<close>

lemma seg_upd_others:
  "seg d h xs t \<Longrightarrow> length d' = length d \<Longrightarrow> \<forall>i\<in>set xs. d' ! i = d ! i \<Longrightarrow> seg d' h xs t"
  by (rule seg_frame) auto

lemma seg_snoc: "seg d h (xs @ [x]) t \<longleftrightarrow> seg d h xs x \<and> x \<noteq> npos \<and> x < length d
    \<and> right_sibling (d ! x) = t"
  by (auto simp: seg_append)

lemma union_skip_Inr:
  assumes "x < length d" and "n < length d"
    and "right_sibling (d ! n) \<noteq> npos \<longrightarrow> right_sibling (d ! n) < length d"
  shows "union_skip d x n = Inr (degree (d ! x) \<noteq> degree (d ! n)
      \<or> (right_sibling (d ! n) \<noteq> npos
          \<and> degree (d ! (right_sibling (d ! n))) = degree (d ! x)))"
  using assms by (auto simp: union_skip_def node_at_def)

lemma union_link_Inr:
  assumes "x < length d" and "n < length d" and "x \<noteq> n"
    and "prev_x \<noteq> npos \<longrightarrow> prev_x < length d"
    and "item_index (d ! x) < length es" and "item_index (d ! n) < length es"
  shows "union_link cmp es d h prev_x x n = Inr (link_result cmp es d h prev_x x n)"
  using assms
  by (simp add: union_link_def link_result_def elem_at_def node_at_def value_at_def
      node_upd_def binomial_link_Inr)

lemma union_post_mono:
  assumes "union_post d1 xs1 r" and "set xs1 \<subseteq> set xs" and "length d1 = length d"
    and "\<forall>i<length d. item_index (d1 ! i) = item_index (d ! i)"
  shows "union_post d xs r"
proof -
  from assms(1) obtain d' h' rs where r: "r = Some (Inr (d', h'))" and c: "sibling_chain d' h' rs"
    and o: "distinct rs" "rs \<noteq> []" "set rs \<subseteq> set xs1" "length d' = length d1"
    and i: "\<forall>i<length d1. item_index (d' ! i) = item_index (d1 ! i)"
    unfolding union_post_def by blast
  have "set rs \<subseteq> set xs" using o(3) assms(2) by blast
  moreover have "length d' = length d" using o(4) assms(3) by simp
  moreover have "\<forall>i<length d. item_index (d' ! i) = item_index (d ! i)"
    using i assms(3,4) by simp
  ultimately show ?thesis unfolding union_post_def using r c o(1,2) by blast
qed

lemma union_loop_total:
  assumes "seg d h pre x" and "x \<noteq> npos" and "x < length d"
    and "sibling_chain d (right_sibling (d ! x)) rest"
    and "distinct (pre @ x # rest)"
    and "prev_x = (if pre = [] then npos else last pre)"
    and "\<forall>i\<in>set (pre @ x # rest). item_index (d ! i) < length es"
  shows "union_post d (pre @ x # rest)
     (union_loop cmp es d h prev_x x (right_sibling (d ! x)))"
  using assms
proof (induction rest arbitrary: d h pre x prev_x)
  case Nil
  then have "sibling_chain d h (pre @ [x])" by (simp add: sibling_chain_def seg_snoc)
  with Nil show ?case
    unfolding union_post_def by (subst union_loop.simps) auto
next
  case (Cons n rest)
  let ?rn = "right_sibling (d ! n)"
  from Cons.prems(4) have n: "right_sibling (d ! x) = n" "n \<noteq> npos" "n < length d"
    and chn: "sibling_chain d ?rn rest" by (auto simp: sibling_chain_Cons)
  from Cons.prems(5) have xn: "x \<noteq> n" by auto
  have rn: "?rn \<noteq> npos \<longrightarrow> ?rn < length d"
    using chn by (cases rest) (auto simp: sibling_chain_Cons)
  have prng: "\<forall>i\<in>set pre. i < length d \<and> i \<noteq> npos"
    using seg_in_range [OF Cons.prems(1)] .
  have pv: "prev_x \<noteq> npos \<longrightarrow> prev_x < length d \<and> pre \<noteq> [] \<and> prev_x = last pre"
    using Cons.prems(6) prng by (auto split: if_splits)
  note skip = union_skip_Inr [OF Cons.prems(3) n(3) rn]
  show ?case
  proof (cases "degree (d ! x) \<noteq> degree (d ! n)
      \<or> (?rn \<noteq> npos \<and> degree (d ! ?rn) = degree (d ! x))")
    case True
    have "union_post d ((pre @ [x]) @ n # rest) (union_loop cmp es d h x n ?rn)"
    proof (rule Cons.IH)
      show "seg d h (pre @ [x]) n" using Cons.prems(1,2,3) n by (simp add: seg_snoc)
      show "distinct ((pre @ [x]) @ n # rest)" using Cons.prems(5) by simp
      show "x = (if pre @ [x] = [] then npos else last (pre @ [x]))" by simp
      show "\<forall>i\<in>set ((pre @ [x]) @ n # rest). item_index (d ! i) < length es"
        using Cons.prems(7) by simp
    qed (use n chn in auto)
    moreover have sk: "union_skip d x n = Inr True" using skip True by simp
    have "union_loop cmp es d h prev_x x (right_sibling (d ! x)) =
        union_loop cmp es d h x n ?rn"
      using n sk by (subst union_loop.simps) (simp add: node_at_def)
    ultimately show ?thesis by simp
  next
    case False
    obtain d2 h2 p2 x2 where lr: "link_result cmp es d h prev_x x n = (d2, h2, p2, x2)"
      by (cases "link_result cmp es d h prev_x x n") auto
    have ul: "union_link cmp es d h prev_x x n = Inr (d2, h2, p2, x2)"
      using union_link_Inr [OF Cons.prems(3) n(3) xn, of prev_x es cmp h] pv Cons.prems(7) lr
      by simp
    have sk: "union_skip d x n = Inr False" using skip False by simp
    have step: "x2 < length d2 \<Longrightarrow> union_loop cmp es d h prev_x x (right_sibling (d ! x)) =
        union_loop cmp es d2 h2 p2 x2 (right_sibling (d2 ! x2))"
      using n sk ul by (subst union_loop.simps) (simp add: node_at_def)
    consider (a) "cmp (es ! item_index (d ! x)) (es ! item_index (d ! n))"
      | (b) "\<not> cmp (es ! item_index (d ! x)) (es ! item_index (d ! n))" "prev_x = npos"
      | (c) "\<not> cmp (es ! item_index (d ! x)) (es ! item_index (d ! n))" "prev_x \<noteq> npos"
      by blast
    then show ?thesis
    proof cases
      case a
      let ?d1 = "d[x := (d ! x)\<lparr>right_sibling := ?rn\<rparr>]"
      from lr a have d2: "d2 = linked ?d1 n x" and o: "h2 = h" "p2 = prev_x" "x2 = x"
        by (auto simp: link_result_def)
      have len: "length d2 = length d" unfolding d2 by simp
      have oth: "\<And>i. i \<noteq> x \<Longrightarrow> i \<noteq> n \<Longrightarrow> d2 ! i = d ! i" unfolding d2 by simp
      have rx: "right_sibling (d2 ! x) = ?rn"
        unfolding d2 using Cons.prems(3) by (simp add: linked_z)
      have it: "\<forall>i<length d. item_index (d2 ! i) = item_index (d ! i)"
        unfolding d2 using Cons.prems(3)
        by (auto simp: linked_item_index nth_list_update)
      have "union_post d2 (pre @ x # rest)
          (union_loop cmp es d2 h prev_x x (right_sibling (d2 ! x)))"
      proof (rule Cons.IH)
        show "seg d2 h pre x"
          using Cons.prems(5) by (intro seg_upd_others [OF Cons.prems(1) len]) (auto intro!: oth)
        show "sibling_chain d2 (right_sibling (d2 ! x)) rest"
          unfolding rx sibling_chain_def using Cons.prems(5)
          by (intro seg_upd_others [OF chn [unfolded sibling_chain_def] len]) (auto intro!: oth)
        show "distinct (pre @ x # rest)" using Cons.prems(5) by simp
        show "\<forall>i\<in>set (pre @ x # rest). item_index (d2 ! i) < length es"
          using Cons.prems(7) it prng Cons.prems(3) sibling_chain_in_range [OF chn] by auto
      qed (use Cons.prems len in auto)
      then have "union_post d (pre @ x # n # rest)
          (union_loop cmp es d2 h prev_x x (right_sibling (d2 ! x)))"
        by (rule union_post_mono) (use len it in auto)
      then show ?thesis using step o len Cons.prems(3) by simp
    next
      case b
      from lr b have d2: "d2 = linked d x n" and o: "h2 = n" "p2 = prev_x" "x2 = n"
        by (auto simp: link_result_def)
      from b Cons.prems(6) prng have pre: "pre = []" by (auto split: if_splits)
      have len: "length d2 = length d" unfolding d2 by simp
      have oth: "\<And>i. i \<noteq> x \<Longrightarrow> i \<noteq> n \<Longrightarrow> d2 ! i = d ! i" unfolding d2 by simp
      have rx: "right_sibling (d2 ! n) = ?rn"
        unfolding d2 using n(3) by (simp add: linked_z)
      have it: "\<forall>i<length d. item_index (d2 ! i) = item_index (d ! i)"
        unfolding d2 by (auto simp: linked_item_index)
      have "union_post d2 ([] @ n # rest)
          (union_loop cmp es d2 n prev_x n (right_sibling (d2 ! n)))"
      proof (rule Cons.IH)
        show "sibling_chain d2 (right_sibling (d2 ! n)) rest"
          unfolding rx sibling_chain_def using Cons.prems(5)
          by (intro seg_upd_others [OF chn [unfolded sibling_chain_def] len]) (auto intro!: oth)
        show "\<forall>i\<in>set ([] @ n # rest). item_index (d2 ! i) < length es"
          using Cons.prems(7) it n(3) sibling_chain_in_range [OF chn] by auto
      qed (use Cons.prems n len b in auto)
      then have "union_post d (pre @ x # n # rest)
          (union_loop cmp es d2 n prev_x n (right_sibling (d2 ! n)))"
        by (rule union_post_mono) (use len it in auto)
      then show ?thesis using step o len n(3) by simp
    next
      case c
      let ?d1 = "d[prev_x := (d ! prev_x)\<lparr>right_sibling := n\<rparr>]"
      from lr c have d2: "d2 = linked ?d1 x n" and o: "h2 = h" "p2 = prev_x" "x2 = n"
        by (auto simp: link_result_def)
      from c pv obtain pre0 where pre: "pre = pre0 @ [prev_x]" and pl: "prev_x < length d"
        by (metis append_butlast_last_id)
      from Cons.prems(1) have s0: "seg d h pre0 prev_x" unfolding pre by (simp add: seg_snoc)
      from Cons.prems(5) have dis: "prev_x \<noteq> x" "prev_x \<noteq> n" "prev_x \<notin> set pre0"
        "x \<notin> set pre0" "n \<notin> set pre0" "prev_x \<notin> set rest" "x \<notin> set rest" "n \<notin> set rest"
        unfolding pre by auto
      have len: "length d2 = length d" unfolding d2 by simp
      have oth: "\<And>i. i \<noteq> x \<Longrightarrow> i \<noteq> n \<Longrightarrow> i \<noteq> prev_x \<Longrightarrow> d2 ! i = d ! i"
        unfolding d2 by simp
      have rp: "right_sibling (d2 ! prev_x) = n"
        unfolding d2 using dis pl by simp
      have rx: "right_sibling (d2 ! n) = ?rn"
        unfolding d2 using n(3) dis by (simp add: linked_z)
      have it: "\<forall>i<length d. item_index (d2 ! i) = item_index (d ! i)"
        unfolding d2 using pl by (auto simp: linked_item_index nth_list_update)
      have "union_post d2 (pre @ n # rest)
          (union_loop cmp es d2 h prev_x n (right_sibling (d2 ! n)))"
      proof (rule Cons.IH)
        have "seg d2 h pre0 prev_x"
          using dis by (intro seg_upd_others [OF s0 len]) (auto intro!: oth)
        then show "seg d2 h pre n"
          unfolding pre using rp pl len c by (simp add: seg_snoc)
        show "sibling_chain d2 (right_sibling (d2 ! n)) rest"
          unfolding rx sibling_chain_def using dis
          by (intro seg_upd_others [OF chn [unfolded sibling_chain_def] len]) (auto intro!: oth)
        show "distinct (pre @ n # rest)" using Cons.prems(5) by simp
        show "\<forall>i\<in>set (pre @ n # rest). item_index (d2 ! i) < length es"
          using Cons.prems(7) it prng n(3) sibling_chain_in_range [OF chn] by auto
        show "prev_x = (if pre = [] then npos else last pre)" unfolding pre by simp
      qed (use n len in auto)
      then have "union_post d (pre @ x # n # rest)
          (union_loop cmp es d2 h prev_x n (right_sibling (d2 ! n)))"
        by (rule union_post_mono) (use len it in auto)
      then show ?thesis using step o len n(3) by simp
    qed
  qed
qed

lemma binomial_heap_union_total:
  assumes "sibling_chain d h ps" and "sibling_chain d q qs" and "distinct (ps @ qs)"
    and "ps \<noteq> []" and "qs \<noteq> []"
    and "\<forall>i\<in>set (ps @ qs). item_index (d ! i) < length es"
  shows "union_post d (ps @ qs) (binomial_heap_union cmp es d h q)"
proof -
  let ?ms = "merge_lists d ps qs"
  from merge_total [OF assms(1-5)] obtain d1 where
    m: "merge d h q = Some (Inr (d1, hd ?ms))" and sb: "same_but_siblings d d1"
    and ch: "sibling_chain d1 (hd ?ms) ?ms" by blast
  have ne: "?ms \<noteq> []" using assms(4) by (simp add: merge_lists_Nil_iff)
  then obtain x rest where ms: "?ms = x # rest" by (cases ?ms) auto
  have len: "length d1 = length d" and it: "\<forall>i<length d. item_index (d1 ! i) = item_index (d ! i)"
    using sb by (auto simp: same_but_siblings_def)
  have set: "set ?ms = set (ps @ qs)" by (simp add: merge_lists_set)
  have dis: "distinct ?ms" using assms(3) by (rule merge_lists_distinct)
  from ch have x: "x \<noteq> npos" "x < length d1" and chr: "sibling_chain d1 (right_sibling (d1 ! x)) rest"
    unfolding ms by (auto simp: sibling_chain_Cons)
  have rng: "\<forall>i\<in>set ?ms. i < length d" using sibling_chain_in_range [OF ch] len by auto
  have items: "\<forall>i\<in>set ([] @ x # rest). item_index (d1 ! i) < length es"
    using assms(6) it rng set unfolding ms [symmetric] by auto
  have "union_post d1 ?ms (binomial_heap_union cmp es d h q)"
  proof (cases "right_sibling (d1 ! x) = npos")
    case True
    then have "binomial_heap_union cmp es d h q = Some (Inr (d1, x))"
      using m x ms by (simp add: binomial_heap_union_def node_at_def)
    then show ?thesis
      unfolding union_post_def using ch dis ne ms by auto
  next
    case False
    then have "binomial_heap_union cmp es d h q =
        union_loop cmp es d1 x npos x (right_sibling (d1 ! x))"
      using m x ms by (simp add: binomial_heap_union_def node_at_def)
    moreover have "union_post d1 ([] @ x # rest)
        (union_loop cmp es d1 x npos x (right_sibling (d1 ! x)))"
      using dis items by (intro union_loop_total x chr) (simp_all add: ms)
    ultimately show ?thesis by (simp add: ms)
  qed
  then show ?thesis by (rule union_post_mono) (use set len it in auto)
qed

subsection \<open>push keeps the invariant\<close>

lemma insert_inv_empty: "insert_inv cmp [] (binomial_heap n)"
  by (simp add: insert_inv_def binomial_heap_def)

lemma push_insert_inv:
  assumes inv: "insert_inv cmp vs s"
    and irr: "\<forall>x. \<not> cmp x x" and tr: "\<forall>x y z. cmp x y \<longrightarrow> cmp y z \<longrightarrow> cmp x z"
    and hv: "ident v < length (index_array s)" and lv: "length vs < npos"
  shows "\<exists>s'. push cmp ident s v = Some (Inr s') \<and> insert_inv cmp (vs @ [v]) s'
    \<and> length (index_array s') = length (index_array s)"
proof -
  let ?m = "length vs"
  let ?es = "vs @ [v]"
  let ?obj = "\<lparr>item_index = ?m, parent = npos, child = npos, right_sibling = npos, degree = 0\<rparr>"
  let ?d = "data s @ [?obj]"
  let ?ia = "(index_array s)[ident v := ?m]"
  from inv obtain rs where el: "elements s = vs" and ld: "length (data s) = ?m"
    and items: "\<forall>i<?m. item_index (data s ! i) = i"
    and ch: "sibling_chain (data s) (head s) rs" and dis: "distinct rs" and rs: "rs = [] \<longleftrightarrow> vs = []"
    and tp: "vs \<noteq> [] \<longrightarrow> topn s < ?m \<and> (\<forall>u\<in>set vs. \<not> cmp u (vs ! topn s))"
    unfolding insert_inv_def by blast
  have m: "?m \<noteq> npos" using lv by simp
  have li: "last_index (length ?es) = ?m" "last_index (length ?d) = ?m"
    by (simp_all add: last_index_def ld)
  have dm: "?d ! ?m = ?obj" using ld by (metis nth_append_length)
  have items': "\<forall>i<Suc ?m. item_index (?d ! i) = i"
    using items ld by (auto simp: nth_append less_Suc_eq)
  show ?thesis
  proof (cases "head s = npos")
    case True
    with ch rs have e: "vs = []" using sibling_chain_head_npos by blast
    have "push cmp ident s v = Some (Inr \<lparr>elements = ?es, data = ?d, head = ?m, topn = ?m,
        index_array = ?ia\<rparr>)"
      using True hv li el unfolding push_def Let_def by (simp add: handle_upd_def)
    moreover have "insert_inv cmp ?es \<lparr>elements = ?es, data = ?d, head = ?m, topn = ?m,
        index_array = ?ia\<rparr>"
      unfolding insert_inv_def using e ld irr m dm
      by (auto intro!: exI [of _ "[0]"] simp: sibling_chain_Cons)
    ultimately show ?thesis by simp
  next
    case False
    with ch rs have ne: "vs \<noteq> []" "rs \<noteq> []" using sibling_chain_head_npos by blast+
    have rng: "\<forall>i\<in>set rs. i < ?m" using sibling_chain_in_range [OF ch] ld by auto
    have c1: "sibling_chain ?d (head s) rs" using ch unfolding sibling_chain_def by (rule seg_snoc_node)
    have c2: "sibling_chain ?d ?m [?m]" using m ld dm by (simp add: sibling_chain_Cons)
    have d2: "distinct (rs @ [?m])" using dis rng by auto
    have it2: "\<forall>i\<in>set (rs @ [?m]). item_index (?d ! i) < length ?es"
      using items' rng by auto
    from binomial_heap_union_total [OF c1 c2 d2 ne(2) _ it2, of cmp]
    obtain d1 h1 rs1 where u: "binomial_heap_union cmp ?es ?d (head s) ?m = Some (Inr (d1, h1))"
      and ch1: "sibling_chain d1 h1 rs1" and o1: "distinct rs1" "rs1 \<noteq> []"
      and l1: "length d1 = length ?d"
      and i1: "\<forall>i<length ?d. item_index (d1 ! i) = item_index (?d ! i)"
      unfolding union_post_def by auto
    have it1: "\<forall>i<Suc ?m. item_index (d1 ! i) = i" using i1 items' ld by simp
    have t: "topn s < ?m" and mn: "\<forall>u\<in>set vs. \<not> cmp u (vs ! topn s)" using tp ne by auto
    let ?t = "if cmp v (vs ! topn s) then ?m else topn s"
    let ?s' = "\<lparr>elements = ?es, data = d1, head = h1, topn = ?t, index_array = ?ia\<rparr>"
    have e1: "elem_at ?es d1 ?m = Inr v"
      using l1 ld it1 by (simp add: elem_at_Inr)
    have e2: "elem_at ?es d1 (topn s) = Inr (vs ! topn s)"
      using l1 ld it1 t by (simp add: elem_at_Inr nth_append)
    have "push cmp ident s v = Some (Inr ?s')"
      using False hv li el u e1 e2 unfolding push_def Let_def by (simp add: handle_upd_def)
    moreover have "insert_inv cmp ?es ?s'"
    proof -
      have "\<forall>u\<in>set ?es. \<not> cmp u (?es ! ?t)"
      proof (cases "cmp v (vs ! topn s)")
        case True
        then have "\<not> cmp u v" if "u \<in> set vs" for u using mn tr that by blast
        with True irr show ?thesis by simp
      next
        case False
        with mn t show ?thesis by (simp add: nth_append)
      qed
      moreover have "?t < length ?es" using t by simp
      ultimately show ?thesis
        unfolding insert_inv_def using l1 ld it1 ch1 o1 by auto
    qed
    ultimately show ?thesis by simp
  qed
qed

lemma run_pushes:
  assumes irr: "\<forall>x. \<not> cmp x x" and tr: "\<forall>x y z. cmp x y \<longrightarrow> cmp y z \<longrightarrow> cmp x z"
  shows "insert_inv cmp vs0 s \<Longrightarrow> \<forall>v\<in>set vs. ident v < length (index_array s)
    \<Longrightarrow> length (vs0 @ vs) < npos
    \<Longrightarrow> \<exists>s'. run cmp ident s (map Push vs) = Some (Inr s') \<and> insert_inv cmp (vs0 @ vs) s'"
proof (induction vs arbitrary: s vs0)
  case Nil
  then show ?case by simp
next
  case (Cons v vs)
  from push_insert_inv [OF Cons.prems(1) irr tr, of ident v] Cons.prems(2,3)
  obtain s1 where p: "push cmp ident s v = Some (Inr s1)"
    and i: "insert_inv cmp (vs0 @ [v]) s1"
    and l: "length (index_array s1) = length (index_array s)" by auto
  from Cons.IH [OF i] Cons.prems(2,3) l
  obtain s' where "run cmp ident s1 (map Push vs) = Some (Inr s')"
    and "insert_inv cmp ((vs0 @ [v]) @ vs) s'" by auto
  with p show ?case by (simp add: apply_op_def)
qed

text \<open>
  C6. Any non-empty sequence of insertions into the heap built by the constructor with a
  capacity, the handles of the values below that capacity: every insertion returns (no
  access is out of range and the loops of the union end), and the extremal query on the
  heap obtained returns one of the inserted values such that no inserted value compares
  more favourably than it. The comparator is irreflexive and transitive, as a strict
  weak ordering is; the number of values is below the value of the "none" link, the
  largest \<^verbatim>\<open>size_t\<close>.
\<close>

theorem top_after_insertions:
  assumes "\<forall>x. \<not> cmp x x" and "\<forall>x y z. cmp x y \<longrightarrow> cmp y z \<longrightarrow> cmp x z"
    and "vs \<noteq> []" and "\<forall>v\<in>set vs. ident v < n" and "length vs < npos"
  shows "\<exists>s t. run cmp ident (binomial_heap n) (map Push vs) = Some (Inr s)
    \<and> heap_top s = Inr t \<and> t \<in> set vs \<and> (\<forall>v\<in>set vs. \<not> cmp v t)"
proof -
  have "\<forall>v\<in>set vs. ident v < length (index_array (binomial_heap n :: 'a binomial_heap))"
    using assms(4) by (simp add: binomial_heap_def)
  from run_pushes [OF assms(1,2) insert_inv_empty this] assms(5)
  obtain s where r: "run cmp ident (binomial_heap n) (map Push vs) = Some (Inr s)"
    and i: "insert_inv cmp vs s" by auto
  from i assms(3) have "heap_top s = Inr (vs ! topn s)" and "topn s < length vs"
    and "\<forall>v\<in>set vs. \<not> cmp v (vs ! topn s)"
    unfolding insert_inv_def heap_top_def by (auto simp: elem_at_Inr)
  with r show ?thesis by (intro exI [of _ s] exI [of _ "vs ! topn s"]) simp
qed

theorem top_after_insertions_witness:
  "\<exists>s. run key_less snd (binomial_heap 6)
          (map Push [(5, 0), (3, 1), (8, 2), (1, 3), (9, 4), (2, 5)]) = Some (Inr s)
     \<and> heap_top s = Inr (1, 3)"
proof -
  let ?vs = "[(5 :: int, 0 :: nat), (3, 1), (8, 2), (1, 3), (9, 4), (2, 5)]"
  have "\<exists>s t. run key_less snd (binomial_heap 6) (map Push ?vs) = Some (Inr s)
      \<and> heap_top s = Inr t \<and> t \<in> set ?vs \<and> (\<forall>v\<in>set ?vs. \<not> key_less v t)"
    by (rule top_after_insertions) (auto simp: key_less_def npos_def)
  then obtain s t where r: "run key_less snd (binomial_heap 6) (map Push ?vs) = Some (Inr s)"
    and t: "heap_top s = Inr t" and m: "t \<in> set ?vs" and l: "\<not> key_less (1, 3) t"
    by auto
  from m l have "t = (1, 3)" by (auto simp: key_less_def)
  with r t show ?thesis by blast
qed

end
